theory Spec2Isabelle
  imports Main "HOL-Library.Word"
begin

unbundle bit_operations_syntax

section \<open>Timestamps (engine/timestamp.c)\<close>

text \<open>
  Modelled from the spec: the declaration of \<^verbatim>\<open>struct timestamp\<close> lives in timestamp.h,
  which is not among the sources. The spec gives a signed whole-seconds component wide
  enough for dates decades past 1970 and a nanosecond-scale sub-second component; the
  code assigns a \<^verbatim>\<open>time_t\<close> to the first and an \<^verbatim>\<open>int\<close> to the second
  (\<^verbatim>\<open>timestamp_init\<close>). \<^verbatim>\<open>time_t\<close> is taken as the 64-bit signed integer of
  the LP64 and Win64 platforms, \<^verbatim>\<open>int\<close> as 32 bits, \<^verbatim>\<open>short\<close> as 16 bits.
\<close>

type_synonym time_t = "64 word"
type_synonym c_int = "32 word"
type_synonym c_short = "16 word"

record timestamp =
  secs :: time_t
  nsecs :: c_int

text \<open>\<^verbatim>\<open>timestamp_clear\<close>: both fields become 0. The value written is returned.\<close>

definition timestamp_clear :: timestamp where
  "timestamp_clear = \<lparr>secs = 0, nsecs = 0\<rparr>"

text \<open>
  \<^verbatim>\<open>timestamp_cmp\<close>: the result type is \<^verbatim>\<open>int\<close>. The difference of the seconds is
  computed in \<^verbatim>\<open>time_t\<close> and converted to \<^verbatim>\<open>int\<close> by the return statement, which
  keeps the low 32 bits.
\<close>

definition timestamp_cmp :: "timestamp \<Rightarrow> timestamp \<Rightarrow> c_int" where
  "timestamp_cmp lhs rhs =
     (if secs lhs = secs rhs then nsecs lhs - nsecs rhs
      else ucast (secs lhs - secs rhs))"

definition timestamp_copy :: "timestamp \<Rightarrow> timestamp" where
  "timestamp_copy source = \<lparr>secs = secs source, nsecs = nsecs source\<rparr>"

definition timestamp_empty :: "timestamp \<Rightarrow> c_int" where
  "timestamp_empty t = (if secs t = 0 \<and> nsecs t = 0 then 1 else 0)"

definition timestamp_init :: "time_t \<Rightarrow> c_int \<Rightarrow> timestamp" where
  "timestamp_init s n = \<lparr>secs = s, nsecs = n\<rparr>"

definition timestamp_max :: "timestamp \<Rightarrow> timestamp \<Rightarrow> timestamp" where
  "timestamp_max lhs rhs =
     (if 0 < sint (timestamp_cmp lhs rhs) then timestamp_copy lhs else timestamp_copy rhs)"

text \<open>
  The order the comparison is meant to decide: whole seconds first, the sub-second
  component on a tie, both read as the signed numbers they are.
\<close>

definition precedes :: "timestamp \<Rightarrow> timestamp \<Rightarrow> bool" where
  "precedes a b \<longleftrightarrow>
     sint (secs a) < sint (secs b) \<or> (secs a = secs b \<and> sint (nsecs a) < sint (nsecs b))"

section \<open>Bindings and the binding table\<close>

type_synonym object = string

datatype bind_progress =
    BIND_INIT      \<comment> \<open>never seen\<close>
  | BIND_NOENTRY   \<comment> \<open>timestamp requested but file never found\<close>
  | BIND_SPOTTED   \<comment> \<open>file found but not timed yet\<close>
  | BIND_MISSING   \<comment> \<open>file found but can not get timestamp\<close>
  | BIND_FOUND     \<comment> \<open>file found and time stamped\<close>

record BINDING =
  name :: object
  flags :: c_short
  progress :: bind_progress
  time :: timestamp

definition BIND_SCANNED :: c_short where
  "BIND_SCANNED = 1"

text \<open>
  Modelled from the spec: hash.c is not among the sources. The spec gives the table as an
  insert-or-find container that hands back the same record for an equal key and leaves
  the fields of a new record to the caller; it is a map from keys to records here.
\<close>

type_synonym hash = "object \<rightharpoonup> BINDING"

text \<open>
  The static pointer \<^verbatim>\<open>bindhash\<close>: null before the first query, then a table.
  \<^verbatim>\<open>timestamp_done\<close> hands the table to \<^verbatim>\<open>hashdone\<close> and leaves the pointer as it
  is, so afterwards it refers to a released table (\<open>Freed\<close>).
\<close>

datatype hashptr = Null | Live hash | Freed

text \<open>
  The calls made to the external collaborators, in order. The table is the only state
  of the C file; the log records its effects on the outside.
\<close>

datatype call = Dirscan object | Archscan object | File_time object

record state =
  bindhash :: hashptr
  calls :: "call list"

definition initial_state :: state where
  "initial_state = \<lparr>bindhash = Null, calls = []\<rparr>"

datatype error = Use_after_free | Null_dereference

section \<open>External collaborators\<close>

text \<open>
  \<^verbatim>\<open>PATHNAME\<close> (pathsys.h): each part is a pointer and a length, here the string they
  delimit. A length of 0 is the empty string.
\<close>

record PATHNAME =
  f_grist :: string
  f_root :: string
  f_dir :: string
  f_base :: string
  f_suffix :: string
  f_member :: string

text \<open>
  The routines of pathsys.c and filesys.c are parameters. \<open>file_dirscan\<close> and
  \<open>file_archscan\<close> give, for a directory or archive, the entries for which the scanner
  invokes the callback, in order, each with the \<^verbatim>\<open>found\<close> flag and the time it passes.
  \<open>file_time\<close> gives the return code and the contents of the time it was handed after
  the call. \<open>path_build\<close> gives the string appended to an empty buffer.
\<close>

record env =
  path_as_key :: "object \<Rightarrow> object"
  path_parse :: "string \<Rightarrow> PATHNAME"
  path_parent :: "PATHNAME \<Rightarrow> PATHNAME"
  path_build :: "PATHNAME \<Rightarrow> string"
  file_dirscan :: "object \<Rightarrow> (object \<times> c_int \<times> timestamp) list"
  file_archscan :: "string \<Rightarrow> (object \<times> c_int \<times> timestamp) list"
  file_time :: "object \<Rightarrow> timestamp \<Rightarrow> int \<times> timestamp"

section \<open>Scan ingestion\<close>

text \<open>
  \<^verbatim>\<open>time_enter\<close>: \<^verbatim>\<open>hash_insert\<close> finds the record of the key or adds one; a new
  record gets its name and \<^verbatim>\<open>flags = 0\<close>. Time and progress are then written in
  either case.
\<close>

definition time_enter :: "env \<Rightarrow> hash \<Rightarrow> object \<Rightarrow> c_int \<Rightarrow> timestamp \<Rightarrow> hash" where
  "time_enter e h target found t =
     (let target' = path_as_key e target;
          p = (if found \<noteq> 0 then BIND_FOUND else BIND_SPOTTED)
      in case h target' of
           None \<Rightarrow> h(target' \<mapsto> \<lparr>name = target', flags = 0, progress = p,
                                  time = timestamp_copy t\<rparr>)
         | Some b \<Rightarrow> h(target' \<mapsto> b\<lparr>time := timestamp_copy t, progress := p\<rparr>))"

text \<open>A scan: the callback runs once for each entry the scanner reports.\<close>

definition scan_entries :: "env \<Rightarrow> hash \<Rightarrow> (object \<times> c_int \<times> timestamp) list \<Rightarrow> hash" where
  "scan_entries e h es = foldl (\<lambda>h' (target, found, t). time_enter e h' target found t) h es"

section \<open>Discovery\<close>

text \<open>
  \<^verbatim>\<open>hash_insert\<close> followed by the initialisation of a record that was not found, as
  \<^verbatim>\<open>timestamp_from_path\<close> writes it three times.
\<close>

definition hash_insert_init :: "hash \<Rightarrow> object \<Rightarrow> hash" where
  "hash_insert_init h key =
     (case h key of
        Some b \<Rightarrow> h
      | None \<Rightarrow> h(key \<mapsto> \<lparr>name = key, flags = 0, progress = BIND_INIT,
                            time = timestamp_clear\<rparr>))"

definition is_scanned :: "hash \<Rightarrow> object \<Rightarrow> bool" where
  "is_scanned h key =
     (case h key of None \<Rightarrow> False | Some b \<Rightarrow> flags b AND BIND_SCANNED \<noteq> 0)"

definition set_scanned :: "hash \<Rightarrow> object \<Rightarrow> hash" where
  "set_scanned h key =
     (case h key of
        None \<Rightarrow> h
      | Some b \<Rightarrow> h(key \<mapsto> b\<lparr>flags := flags b OR BIND_SCANNED\<rparr>))"

definition set_progress :: "hash \<Rightarrow> object \<Rightarrow> bind_progress \<Rightarrow> hash" where
  "set_progress h key p =
     (case h key of None \<Rightarrow> h | Some b \<Rightarrow> h(key \<mapsto> b\<lparr>progress := p\<rparr>))"

definition progress_of :: "hash \<Rightarrow> object \<Rightarrow> bind_progress option" where
  "progress_of h key = map_option progress (h key)"

text \<open>The name of the directory that is scanned for a parsed path.\<close>

definition directory_name :: "env \<Rightarrow> PATHNAME \<Rightarrow> object" where
  "directory_name e f1 = path_build e (path_parent e (f1\<lparr>f_grist := ''''\<rparr>))"

definition archive_name :: "env \<Rightarrow> PATHNAME \<Rightarrow> object" where
  "archive_name e f1 = path_build e (f1\<lparr>f_grist := '''', f_member := ''''\<rparr>)"

text \<open>The block "Scan directory if not already done so".\<close>

definition scan_directory :: "env \<Rightarrow> PATHNAME \<Rightarrow> hash \<times> call list \<Rightarrow> hash \<times> call list" where
  "scan_directory e f1 hc =
     (let nm = directory_name e f1;
          h = hash_insert_init (fst hc) nm
      in if \<not> is_scanned h nm
         then (set_scanned (scan_entries e h (file_dirscan e nm)) nm, snd hc @ [Dirscan nm])
         else (h, snd hc))"

text \<open>The block "Scan archive if not already done so".\<close>

definition scan_archive :: "env \<Rightarrow> PATHNAME \<Rightarrow> hash \<times> call list \<Rightarrow> hash \<times> call list" where
  "scan_archive e f1 hc =
     (if f_member f1 \<noteq> ''''
      then (let nm = archive_name e f1;
                h = hash_insert_init (fst hc) nm
            in if \<not> is_scanned h nm
               then (set_scanned (scan_entries e h (file_archscan e nm)) nm,
                     snd hc @ [Archscan nm])
               else (h, snd hc))
      else hc)"

text \<open>
  From the quick path to the label \<^verbatim>\<open>afterscanning\<close>: the binding of the key is found
  or added; unless its progress is \<^verbatim>\<open>BIND_INIT\<close> nothing else happens.
\<close>

definition scanning :: "env \<Rightarrow> object \<Rightarrow> hash \<times> call list \<Rightarrow> hash \<times> call list" where
  "scanning e normalized_path hc =
     (let h = hash_insert_init (fst hc) normalized_path
      in if progress_of h normalized_path \<noteq> Some BIND_INIT then (h, snd hc)
         else (let h' = set_progress h normalized_path BIND_NOENTRY;
                   f1 = path_parse e normalized_path
               in scan_archive e f1 (scan_directory e f1 (h', snd hc))))"

text \<open>
  From the label \<^verbatim>\<open>afterscanning\<close> to the end: the probe of a spotted binding and the
  time handed back.
\<close>

definition probe :: "env \<Rightarrow> object \<Rightarrow> hash \<times> call list \<Rightarrow> hash \<times> call list" where
  "probe e normalized_path hc =
     (case fst hc normalized_path of
        None \<Rightarrow> hc
      | Some b \<Rightarrow>
          if progress b = BIND_SPOTTED
          then (let r = file_time e (name b) (time b)
                in ((fst hc)(normalized_path \<mapsto>
                       b\<lparr>time := snd r,
                         progress := (if fst r < 0 then BIND_MISSING else BIND_FOUND)\<rparr>),
                    snd hc @ [File_time (name b)]))
          else hc)"

definition result_time :: "hash \<Rightarrow> object \<Rightarrow> timestamp" where
  "result_time h normalized_path =
     (case h normalized_path of
        None \<Rightarrow> timestamp_clear
      | Some b \<Rightarrow> if progress b = BIND_FOUND then timestamp_copy (time b) else timestamp_clear)"

definition afterscanning :: "env \<Rightarrow> object \<Rightarrow> hash \<times> call list \<Rightarrow> timestamp \<times> state" where
  "afterscanning e normalized_path hc =
     (let hc' = probe e normalized_path hc
      in (result_time (fst hc') normalized_path, \<lparr>bindhash = Live (fst hc'), calls = snd hc'\<rparr>))"

text \<open>
  The table the query works on: created when the pointer is null. A pointer to a released
  table is not null, so no table is created and the table functions are called on
  released storage.
\<close>

definition open_bindhash :: "hashptr \<Rightarrow> error + hash" where
  "open_bindhash p = (case p of Null \<Rightarrow> Inr Map.empty | Live h \<Rightarrow> Inr h | Freed \<Rightarrow> Inl Use_after_free)"

definition timestamp_from_path :: "env \<Rightarrow> state \<Rightarrow> object \<Rightarrow> error + timestamp \<times> state" where
  "timestamp_from_path e s path =
     (let normalized_path = path_as_key e path
      in case open_bindhash (bindhash s) of
           Inl err \<Rightarrow> Inl err
         | Inr h \<Rightarrow> Inr (afterscanning e normalized_path (scanning e normalized_path (h, calls s))))"

text \<open>
  \<^verbatim>\<open>timestamp_done\<close>: every name is released and the table is handed to
  \<^verbatim>\<open>hashdone\<close>; the pointer is not reset. Nothing happens when the pointer is null.
  Calling it on a released table releases it a second time.
\<close>

definition timestamp_done :: "state \<Rightarrow> error + state" where
  "timestamp_done s =
     (case bindhash s of
        Null \<Rightarrow> Inr s
      | Live h \<Rightarrow> Inr (s\<lparr>bindhash := Freed\<rparr>)
      | Freed \<Rightarrow> Inl Use_after_free)"

text \<open>A run of queries, one after the other, with the times they return.\<close>

fun resolve_all :: "env \<Rightarrow> state \<Rightarrow> object list \<Rightarrow> error + timestamp list \<times> state" where
  "resolve_all e s [] = Inr ([], s)"
| "resolve_all e s (p # ps) =
     (case timestamp_from_path e s p of
        Inl err \<Rightarrow> Inl err
      | Inr (t, s') \<Rightarrow>
          (case resolve_all e s' ps of
             Inl err \<Rightarrow> Inl err
           | Inr (ts, s'') \<Rightarrow> Inr (t # ts, s'')))"

text \<open>
  The operations that change a binding within a run: a query, or one callback of a scan
  on the table (its closure argument).
\<close>

datatype operation = Resolve object | Enter object c_int timestamp

fun apply_operation :: "env \<Rightarrow> state \<Rightarrow> operation \<Rightarrow> error + state" where
  "apply_operation e s (Resolve p) =
     (case timestamp_from_path e s p of Inl err \<Rightarrow> Inl err | Inr (t, s') \<Rightarrow> Inr s')"
| "apply_operation e s (Enter target found t) =
     (case bindhash s of
        Live h \<Rightarrow> Inr (s\<lparr>bindhash := Live (time_enter e h target found t)\<rparr>)
      | Null \<Rightarrow> Inl Null_dereference
      | Freed \<Rightarrow> Inl Use_after_free)"

fun apply_operations :: "env \<Rightarrow> state \<Rightarrow> operation list \<Rightarrow> error + state" where
  "apply_operations e s [] = Inr s"
| "apply_operations e s (x # xs) =
     (case apply_operation e s x of Inl err \<Rightarrow> Inl err | Inr s' \<Rightarrow> apply_operations e s' xs)"

section \<open>Notions used by the properties\<close>

text \<open>The table a query works on when the pointer is null or refers to a table.\<close>

definition table :: "state \<Rightarrow> hash" where
  "table s = (case bindhash s of Live h \<Rightarrow> h | Null \<Rightarrow> Map.empty | Freed \<Rightarrow> Map.empty)"

text \<open>The name of the directory whose scan a query of the path asks for.\<close>

definition parent_directory :: "env \<Rightarrow> object \<Rightarrow> object" where
  "parent_directory e p = directory_name e (path_parse e (path_as_key e p))"

definition parent_archive :: "env \<Rightarrow> object \<Rightarrow> object" where
  "parent_archive e p = archive_name e (path_parse e (path_as_key e p))"

text \<open>The keys under which a scan enters what it reports.\<close>

definition entry_keys :: "env \<Rightarrow> (object \<times> c_int \<times> timestamp) list \<Rightarrow> object set" where
  "entry_keys e es = set (map (\<lambda>x. path_as_key e (fst x)) es)"

text \<open>A shutdown followed by a query.\<close>

definition resolve_after_shutdown :: "env \<Rightarrow> state \<Rightarrow> object \<Rightarrow> error + timestamp \<times> state" where
  "resolve_after_shutdown e s p =
     (case timestamp_done s of Inl err \<Rightarrow> Inl err | Inr s' \<Rightarrow> timestamp_from_path e s' p)"

text \<open>The progress states in which an entry has been seen by a scan.\<close>

definition seen :: "hash \<Rightarrow> object \<Rightarrow> bool" where
  "seen h k \<longleftrightarrow>
     progress_of h k = Some BIND_SPOTTED \<or> progress_of h k = Some BIND_MISSING
     \<or> progress_of h k = Some BIND_FOUND"

text \<open>The progress states of a binding for which a query has begun or a scan has reported.\<close>

definition started :: "hash \<Rightarrow> object \<Rightarrow> bool" where
  "started h k \<longleftrightarrow> progress_of h k \<noteq> None \<and> progress_of h k \<noteq> Some BIND_INIT"

text \<open>
  What every step of a run keeps of a table: the keys, the scanned flags, and that a
  binding has been started or seen.
\<close>

definition evolves :: "hash \<Rightarrow> hash \<Rightarrow> bool" where
  "evolves h h' \<longleftrightarrow>
     (\<forall>k. (h k \<noteq> None \<longrightarrow> h' k \<noteq> None)
        \<and> (is_scanned h k \<longrightarrow> is_scanned h' k)
        \<and> (started h k \<longrightarrow> started h' k)
        \<and> (seen h k \<longrightarrow> seen h' k))"

text \<open>The calls of the direct probe in a log.\<close>

fun is_probe :: "call \<Rightarrow> bool" where
  "is_probe (File_time n) = True"
| "is_probe (Dirscan d) = False"
| "is_probe (Archscan a) = False"

definition probes :: "call list \<Rightarrow> nat" where
  "probes cs = length (filter is_probe cs)"

text \<open>
  The log of a run is in order when no directory is logged twice and every directory
  logged has the scanned flag.
\<close>

definition scan_log_ok :: "state \<Rightarrow> bool" where
  "scan_log_ok s \<longleftrightarrow>
     (\<forall>d. count_list (calls s) (Dirscan d) \<le> 1
        \<and> (0 < count_list (calls s) (Dirscan d) \<longrightarrow> is_scanned (table s) d))"

text \<open>
  The directory and archive names of a key, and whether the key names an archive member,
  as \<^verbatim>\<open>timestamp_from_path\<close> derives them from the parsed key.
\<close>

definition key_directory :: "env \<Rightarrow> object \<Rightarrow> object" where
  "key_directory e k = directory_name e (path_parse e k)"

definition key_archive :: "env \<Rightarrow> object \<Rightarrow> object" where
  "key_archive e k = archive_name e (path_parse e k)"

definition key_member :: "env \<Rightarrow> object \<Rightarrow> bool" where
  "key_member e k \<longleftrightarrow> f_member (path_parse e k) \<noteq> ''''"

text \<open>
  The scans a query of q asks for report in place: the directory scan reports entries of
  that directory only, and the archive scan members whose directory is that of q.
\<close>

definition scans_in_place :: "env \<Rightarrow> object \<Rightarrow> bool" where
  "scans_in_place e q \<longleftrightarrow>
     (\<forall>x\<in>entry_keys e (file_dirscan e (key_directory e (path_as_key e q))).
         key_directory e x = key_directory e (path_as_key e q))
     \<and> (key_member e (path_as_key e q) \<longrightarrow>
          (\<forall>x\<in>entry_keys e (file_archscan e (key_archive e (path_as_key e q))).
              key_directory e x = key_directory e (path_as_key e q)))"

text \<open>The name d is not the archive of a queried archive member.\<close>

definition not_queried_as_archive :: "env \<Rightarrow> object \<Rightarrow> object \<Rightarrow> bool" where
  "not_queried_as_archive e d q \<longleftrightarrow>
     (key_member e (path_as_key e q) \<longrightarrow> key_archive e (path_as_key e q) \<noteq> d)"

text \<open>
  What a run of such queries keeps: the directory of every started binding has the
  scanned flag, and the flag of d is set only by a logged directory scan.
\<close>

definition scan_inv :: "env \<Rightarrow> object \<Rightarrow> state \<Rightarrow> bool" where
  "scan_inv e d s \<longleftrightarrow>
     (\<forall>k. started (table s) k \<longrightarrow> is_scanned (table s) (key_directory e k))
     \<and> (is_scanned (table s) d \<longrightarrow> 0 < count_list (calls s) (Dirscan d))"

section \<open>A small file system\<close>

text \<open>
  Collaborators for the examples: a directory \<open>d\<close> holding the file \<open>d/a\<close> and the
  archive \<open>d/l\<close>; the archive lists its members \<open>m\<close> and \<open>x\<close> without times; the
  direct probe succeeds for \<open>d/l(m)\<close> only. There is no \<open>d/b\<close>.
\<close>

definition example_parse :: "string \<Rightarrow> PATHNAME" where
  "example_parse p =
     (if p = ''d/a'' then
        \<lparr>f_grist = '''', f_root = '''', f_dir = ''d'', f_base = ''a'', f_suffix = '''', f_member = ''''\<rparr>
      else if p = ''d/b'' then
        \<lparr>f_grist = '''', f_root = '''', f_dir = ''d'', f_base = ''b'', f_suffix = '''', f_member = ''''\<rparr>
      else if p = ''d/l'' then
        \<lparr>f_grist = '''', f_root = '''', f_dir = ''d'', f_base = ''l'', f_suffix = '''', f_member = ''''\<rparr>
      else if p = ''d/l(m)'' then
        \<lparr>f_grist = '''', f_root = '''', f_dir = ''d'', f_base = ''l'', f_suffix = '''', f_member = ''m''\<rparr>
      else if p = ''d/l(x)'' then
        \<lparr>f_grist = '''', f_root = '''', f_dir = ''d'', f_base = ''l'', f_suffix = '''', f_member = ''x''\<rparr>
      else if p = ''d/l/f'' then
        \<lparr>f_grist = '''', f_root = '''', f_dir = ''d/l'', f_base = ''f'', f_suffix = '''', f_member = ''''\<rparr>
      else
        \<lparr>f_grist = '''', f_root = '''', f_dir = '''', f_base = p, f_suffix = '''', f_member = ''''\<rparr>)"

definition example_parent :: "PATHNAME \<Rightarrow> PATHNAME" where
  "example_parent f = f\<lparr>f_base := '''', f_suffix := '''', f_member := ''''\<rparr>"

definition example_build :: "PATHNAME \<Rightarrow> string" where
  "example_build f =
     f_grist f @ f_root f @ f_dir f
     @ (if f_dir f \<noteq> '''' \<and> f_base f @ f_suffix f \<noteq> '''' then ''/'' else '''')
     @ f_base f @ f_suffix f
     @ (if f_member f \<noteq> '''' then ''('' @ f_member f @ '')'' else '''')"

definition example_env :: env where
  "example_env =
     \<lparr>path_as_key = (\<lambda>p. p),
      path_parse = example_parse,
      path_parent = example_parent,
      path_build = example_build,
      file_dirscan = (\<lambda>d. if d = ''d''
         then [(''d/a'', 1, \<lparr>secs = 1000, nsecs = 5\<rparr>), (''d/l'', 1, \<lparr>secs = 2000, nsecs = 0\<rparr>)]
         else []),
      file_archscan = (\<lambda>a. if a = ''d/l''
         then [(''d/l(m)'', 0, timestamp_clear), (''d/l(x)'', 0, timestamp_clear)]
         else []),
      file_time = (\<lambda>n t. if n = ''d/l(m)'' then (0, \<lparr>secs = 3000, nsecs = 0\<rparr>) else (- 1, t))\<rparr>"

section \<open>The comparison within its range\<close>

lemma timestamp_copy_id [simp]: "timestamp_copy t = t"
  by (simp add: timestamp_copy_def)

lemma sint_ucast_diff:
  fixes x y :: time_t
  assumes "- (2 ^ 31) \<le> sint x - sint y" "sint x - sint y < 2 ^ 31"
  shows "sint (ucast (x - y) :: c_int) = sint x - sint y"
proof -
  have "sint (ucast (x - y) :: c_int) = signed_take_bit 31 (uint (x - y))"
    by (simp add: signed_ucast_eq)
  also have "\<dots> = signed_take_bit 31 (sint (x - y))"
    by (simp add: sint_uint)
  also have "\<dots> = signed_take_bit 31 (sint x - sint y)"
    by (simp add: sint_word_diff)
  also have "\<dots> = sint x - sint y"
    using assms by (simp add: signed_take_bit_int_eq_self)
  finally show ?thesis .
qed

lemma sint_diff32:
  fixes x y :: c_int
  assumes "- (2 ^ 31) \<le> sint x - sint y" "sint x - sint y < 2 ^ 31"
  shows "sint (x - y) = sint x - sint y"
  using assms by (simp add: sint_word_diff signed_take_bit_int_eq_self)

lemma timestamp_cmp_in_range:
  assumes "- (2 ^ 31) \<le> sint (secs a) - sint (secs b)" "sint (secs a) - sint (secs b) < 2 ^ 31"
    and "- (2 ^ 31) \<le> sint (nsecs a) - sint (nsecs b)" "sint (nsecs a) - sint (nsecs b) < 2 ^ 31"
  shows "(sint (timestamp_cmp a b) < 0 \<longleftrightarrow> precedes a b)
       \<and> (timestamp_cmp a b = 0 \<longleftrightarrow> a = b)
       \<and> (0 < sint (timestamp_cmp a b) \<longleftrightarrow> precedes b a)"
proof (cases "secs a = secs b")
  case True
  have "sint (timestamp_cmp a b) = sint (nsecs a) - sint (nsecs b)"
    using True assms(3,4) by (simp add: timestamp_cmp_def sint_diff32)
  moreover have "timestamp_cmp a b = 0 \<longleftrightarrow> nsecs a = nsecs b"
    using True by (simp add: timestamp_cmp_def)
  ultimately show ?thesis
    using True by (auto simp: precedes_def)
next
  case False
  have s: "sint (timestamp_cmp a b) = sint (secs a) - sint (secs b)"
    using False assms(1,2) by (simp add: timestamp_cmp_def sint_ucast_diff)
  have ne: "sint (secs a) \<noteq> sint (secs b)"
    using False by (auto dest: signed_word_eqI)
  have "timestamp_cmp a b \<noteq> 0"
  proof
    assume "timestamp_cmp a b = 0"
    then have "sint (timestamp_cmp a b) = 0" by simp
    with s ne show False by simp
  qed
  then show ?thesis
    using False s ne by (auto simp: precedes_def)
qed

lemma timestamp_max_in_range:
  assumes "\<bar>sint (secs a) - sint (secs b)\<bar> < 2 ^ 31" "\<bar>sint (nsecs a) - sint (nsecs b)\<bar> < 2 ^ 31"
  shows "0 \<le> sint (timestamp_cmp (timestamp_max a b) a) \<and> 0 \<le> sint (timestamp_cmp (timestamp_max a b) b)"
proof -
  have ab: "(sint (timestamp_cmp a b) < 0 \<longleftrightarrow> precedes a b) \<and> (0 < sint (timestamp_cmp a b) \<longleftrightarrow> precedes b a)"
    using timestamp_cmp_in_range [of a b] assms by simp
  have ba: "(sint (timestamp_cmp b a) < 0 \<longleftrightarrow> precedes b a) \<and> (0 < sint (timestamp_cmp b a) \<longleftrightarrow> precedes a b)"
    using timestamp_cmp_in_range [of b a] assms by simp
  have refl: "timestamp_cmp a a = 0" "timestamp_cmp b b = 0"
    by (simp_all add: timestamp_cmp_def)
  show ?thesis
  proof (cases "0 < sint (timestamp_cmp a b)")
    case True
    then show ?thesis by (simp add: timestamp_max_def refl)
  next
    case False
    with ab have "\<not> precedes b a" by simp
    with ba have "0 \<le> sint (timestamp_cmp b a)" by auto
    with False show ?thesis by (simp add: timestamp_max_def refl)
  qed
qed

text \<open>
  Claim C7. For all timestamps a and b, \<^verbatim>\<open>timestamp_cmp\<close> returns a negative value iff a
  precedes b, zero iff a equals b, and a positive value iff a follows b, in the order by
  whole seconds first and the sub-second component on a tie.

  The code does not do this. At a = (2147483648 s, 0 ns), which is 2038-01-19 03:14:08
  UTC, and b the empty timestamp, b precedes a and the result is negative; at
  a = (4294967296 s, 0 ns) and the same b the two differ and the result is zero. The
  difference of the seconds does not fit the \<^verbatim>\<open>int\<close> that is returned. The same
  difference arises between 2147483647 s and -1 s, two values of a 32-bit \<^verbatim>\<open>time_t\<close>.
\<close>

theorem timestamp_cmp_wrong_sign:
  "precedes \<lparr>secs = 0, nsecs = 0\<rparr> \<lparr>secs = 2147483648, nsecs = 0\<rparr>
   \<and> sint (timestamp_cmp \<lparr>secs = 2147483648, nsecs = 0\<rparr> \<lparr>secs = 0, nsecs = 0\<rparr>) < 0
   \<and> \<lparr>secs = 4294967296, nsecs = 0\<rparr> \<noteq> \<lparr>secs = 0, nsecs = 0\<rparr>
   \<and> timestamp_cmp \<lparr>secs = 4294967296, nsecs = 0\<rparr> \<lparr>secs = 0, nsecs = 0\<rparr> = 0
   \<and> precedes \<lparr>secs = - 1, nsecs = 0\<rparr> \<lparr>secs = 2147483647, nsecs = 0\<rparr>
   \<and> sint (timestamp_cmp \<lparr>secs = 2147483647, nsecs = 0\<rparr> \<lparr>secs = - 1, nsecs = 0\<rparr>) < 0"
  by (simp add: timestamp_cmp_def precedes_def)

text \<open>
  Claim C8. For all timestamps a and b, \<^verbatim>\<open>timestamp_cmp\<close> of \<^verbatim>\<open>timestamp_max\<close> a b
  with a, and with b, is at least 0.

  The code does not do this. At a = (2147483648 s, 0 ns) and b the empty timestamp the
  maximum computed is b, and its comparison with a is negative. The same happens at
  a = (2147483647 s, 0 ns) and b = (-1 s, 0 ns).
\<close>

theorem timestamp_max_below_argument:
  "timestamp_max \<lparr>secs = 2147483648, nsecs = 0\<rparr> \<lparr>secs = 0, nsecs = 0\<rparr> = \<lparr>secs = 0, nsecs = 0\<rparr>
   \<and> sint (timestamp_cmp (timestamp_max \<lparr>secs = 2147483648, nsecs = 0\<rparr> \<lparr>secs = 0, nsecs = 0\<rparr>)
             \<lparr>secs = 2147483648, nsecs = 0\<rparr>) < 0
   \<and> timestamp_max \<lparr>secs = 2147483647, nsecs = 0\<rparr> \<lparr>secs = - 1, nsecs = 0\<rparr>
       = \<lparr>secs = - 1, nsecs = 0\<rparr>
   \<and> sint (timestamp_cmp (timestamp_max \<lparr>secs = 2147483647, nsecs = 0\<rparr> \<lparr>secs = - 1, nsecs = 0\<rparr>)
             \<lparr>secs = 2147483647, nsecs = 0\<rparr>) < 0"
  by (simp add: timestamp_cmp_def timestamp_max_def)

section \<open>Facts about the table operations\<close>

lemma scanned_bit [simp]: "(x OR BIND_SCANNED) AND BIND_SCANNED \<noteq> 0"
  by (simp add: BIND_SCANNED_def word_ao_absorbs)

lemma BIND_SCANNED_nonzero [simp]: "BIND_SCANNED \<noteq> 0"
  by (simp add: BIND_SCANNED_def)

subsection \<open>time_enter\<close>

lemma time_enter_apply:
  "time_enter e h target found t k =
     (if k = path_as_key e target
      then Some (case h k of
                   None \<Rightarrow> \<lparr>name = k, flags = 0,
                             progress = (if found \<noteq> 0 then BIND_FOUND else BIND_SPOTTED), time = t\<rparr>
                 | Some b \<Rightarrow> b\<lparr>time := t,
                               progress := (if found \<noteq> 0 then BIND_FOUND else BIND_SPOTTED)\<rparr>)
      else h k)"
  by (simp add: time_enter_def Let_def split: option.splits)

lemma time_enter_keeps:
  "h k = Some b \<Longrightarrow>
   \<exists>b'. time_enter e h target found t k = Some b' \<and> flags b' = flags b \<and> name b' = name b"
  by (auto simp: time_enter_apply)

lemma is_scanned_time_enter:
  "is_scanned h d \<Longrightarrow> is_scanned (time_enter e h target found t) d"
  by (auto simp: is_scanned_def time_enter_apply split: option.splits)

lemma seen_time_enter: "seen h k \<Longrightarrow> seen (time_enter e h target found t) k"
  by (auto simp: seen_def progress_of_def time_enter_apply split: option.splits)

lemma started_time_enter:
  "progress_of h k \<noteq> None \<Longrightarrow> progress_of h k \<noteq> Some BIND_INIT \<Longrightarrow>
   progress_of (time_enter e h target found t) k \<noteq> None
   \<and> progress_of (time_enter e h target found t) k \<noteq> Some BIND_INIT"
  by (auto simp: progress_of_def time_enter_apply split: option.splits)

subsection \<open>scan_entries\<close>

lemma scan_entries_Nil [simp]: "scan_entries e h [] = h"
  by (simp add: scan_entries_def)

lemma scan_entries_Cons [simp]:
  "scan_entries e h (x # xs) = scan_entries e (time_enter e h (fst x) (fst (snd x)) (snd (snd x))) xs"
  by (simp add: scan_entries_def split_beta)

lemma is_scanned_scan_entries: "is_scanned h d \<Longrightarrow> is_scanned (scan_entries e h es) d"
  by (induction es arbitrary: h) (simp_all add: is_scanned_time_enter)

lemma seen_scan_entries: "seen h k \<Longrightarrow> seen (scan_entries e h es) k"
  by (induction es arbitrary: h) (simp_all add: seen_time_enter)

lemma dom_scan_entries: "h k \<noteq> None \<Longrightarrow> scan_entries e h es k \<noteq> None"
  by (induction es arbitrary: h) (simp_all add: time_enter_apply)

lemma scan_entries_untouched:
  "k \<notin> entry_keys e es \<Longrightarrow> scan_entries e h es k = h k"
  by (induction es arbitrary: h) (simp_all add: entry_keys_def time_enter_apply)

lemma started_scan_entries:
  "progress_of h k \<noteq> None \<Longrightarrow> progress_of h k \<noteq> Some BIND_INIT \<Longrightarrow>
   progress_of (scan_entries e h es) k \<noteq> None \<and> progress_of (scan_entries e h es) k \<noteq> Some BIND_INIT"
proof (induction es arbitrary: h)
  case Nil
  then show ?case by simp
next
  case (Cons x xs)
  from started_time_enter [OF Cons.prems] Cons.IH show ?case by simp
qed

subsection \<open>table updates\<close>

lemma hash_insert_init_apply:
  "hash_insert_init h key k =
     (if k = key \<and> h key = None
      then Some \<lparr>name = key, flags = 0, progress = BIND_INIT, time = timestamp_clear\<rparr>
      else h k)"
  by (simp add: hash_insert_init_def split: option.splits)

lemma set_scanned_apply:
  "set_scanned h key k =
     (if k = key then map_option (\<lambda>b. b\<lparr>flags := flags b OR BIND_SCANNED\<rparr>) (h k) else h k)"
  by (simp add: set_scanned_def split: option.splits)

lemma set_progress_apply:
  "set_progress h key p k =
     (if k = key then map_option (\<lambda>b. b\<lparr>progress := p\<rparr>) (h k) else h k)"
  by (simp add: set_progress_def split: option.splits)

lemma is_scanned_hash_insert_init [simp]:
  "is_scanned (hash_insert_init h key) d = is_scanned h d"
  by (simp add: is_scanned_def hash_insert_init_apply)

lemma is_scanned_set_progress [simp]:
  "is_scanned (set_progress h key p) d = is_scanned h d"
  by (simp add: is_scanned_def set_progress_apply split: option.splits)

lemma is_scanned_set_scanned:
  "is_scanned (set_scanned h key) d \<longleftrightarrow> is_scanned h d \<or> (d = key \<and> h key \<noteq> None)"
  by (auto simp: is_scanned_def set_scanned_apply split: option.splits)

lemma progress_of_set_scanned [simp]:
  "progress_of (set_scanned h key) k = progress_of h k"
  by (simp add: progress_of_def set_scanned_apply option.map_comp comp_def)

lemma progress_of_hash_insert_init:
  "progress_of (hash_insert_init h key) k =
     (if k = key \<and> h key = None then Some BIND_INIT else progress_of h k)"
  by (simp add: progress_of_def hash_insert_init_apply)

lemma progress_of_set_progress:
  "progress_of (set_progress h key p) k =
     (if k = key \<and> h key \<noteq> None then Some p else progress_of h k)"
  by (auto simp: progress_of_def set_progress_apply)

section \<open>Scan ingestion overwrites\<close>

text \<open>
  Claim C9. After every invocation of \<^verbatim>\<open>time_enter\<close> on an entry, the binding of the
  entry has the time the scanner passed, and its progress is \<^verbatim>\<open>BIND_FOUND\<close> if the scanner
  reported a timestamp and \<^verbatim>\<open>BIND_SPOTTED\<close> otherwise, whatever its progress and time were
  before. In particular a binding that was \<^verbatim>\<open>BIND_FOUND\<close> becomes \<^verbatim>\<open>BIND_SPOTTED\<close>, and
  its time is replaced, when a later scan reports it without a timestamp.
\<close>

theorem time_enter_overwrites:
  "(\<exists>b. time_enter e h target found t (path_as_key e target) = Some b
        \<and> time b = t
        \<and> progress b = (if found \<noteq> 0 then BIND_FOUND else BIND_SPOTTED))
   \<and> time_enter e (h(path_as_key e target \<mapsto> b0\<lparr>progress := BIND_FOUND\<rparr>)) target 0 t
         (path_as_key e target)
       = Some (b0\<lparr>time := t, progress := BIND_SPOTTED\<rparr>)"
  by (simp add: time_enter_def Let_def split: option.splits)

section \<open>What a run keeps of the table\<close>

lemma evolves_refl [simp]: "evolves h h"
  by (simp add: evolves_def)

lemma evolves_trans: "evolves h1 h2 \<Longrightarrow> evolves h2 h3 \<Longrightarrow> evolves h1 h3"
  by (simp add: evolves_def)

lemma evolves_time_enter: "evolves h (time_enter e h target found t)"
  by (simp add: evolves_def is_scanned_time_enter seen_time_enter started_def started_time_enter
      time_enter_apply)

lemma evolves_scan_entries: "evolves h (scan_entries e h es)"
proof (induction es arbitrary: h)
  case Nil
  show ?case by simp
next
  case (Cons x xs)
  show ?case
    using evolves_trans [OF evolves_time_enter Cons.IH] by simp
qed

lemma started_hash_insert_init:
  "started h k \<Longrightarrow> started (hash_insert_init h key) k"
  by (cases "h k") (auto simp: started_def progress_of_def hash_insert_init_apply)

lemma seen_hash_insert_init:
  "seen h k \<Longrightarrow> seen (hash_insert_init h key) k"
  by (cases "h k") (auto simp: seen_def progress_of_def hash_insert_init_apply)

lemma evolves_hash_insert_init: "evolves h (hash_insert_init h key)"
  by (simp add: evolves_def started_hash_insert_init seen_hash_insert_init hash_insert_init_apply)

lemma evolves_set_scanned: "evolves h (set_scanned h key)"
  by (simp add: evolves_def is_scanned_set_scanned started_def seen_def set_scanned_apply)

lemma evolves_set_progress:
  "progress_of h key = Some BIND_INIT \<Longrightarrow> evolves h (set_progress h key BIND_NOENTRY)"
  by (auto simp: evolves_def started_def seen_def progress_of_set_progress set_progress_apply)

section \<open>The two scanning blocks\<close>

lemma scan_directory_fst: "evolves (fst hc) (fst (scan_directory e f1 hc))"
  using evolves_trans [OF evolves_hash_insert_init
      evolves_trans [OF evolves_scan_entries evolves_set_scanned]]
  by (simp add: scan_directory_def Let_def evolves_hash_insert_init)

lemma scan_directory_snd:
  "snd (scan_directory e f1 hc) =
     snd hc @ (if is_scanned (fst hc) (directory_name e f1) then []
               else [Dirscan (directory_name e f1)])"
  by (simp add: scan_directory_def Let_def)

lemma scan_directory_scanned:
  "is_scanned (fst (scan_directory e f1 hc)) (directory_name e f1)"
proof (cases "is_scanned (fst hc) (directory_name e f1)")
  case True
  then show ?thesis by (simp add: scan_directory_def Let_def)
next
  case False
  have "hash_insert_init (fst hc) (directory_name e f1) (directory_name e f1) \<noteq> None"
    by (simp add: hash_insert_init_apply)
  then have "scan_entries e (hash_insert_init (fst hc) (directory_name e f1))
      (file_dirscan e (directory_name e f1)) (directory_name e f1) \<noteq> None"
    by (rule dom_scan_entries)
  with False show ?thesis
    by (simp add: scan_directory_def Let_def is_scanned_set_scanned)
qed

lemma scan_archive_fst: "evolves (fst hc) (fst (scan_archive e f1 hc))"
  using evolves_trans [OF evolves_hash_insert_init
      evolves_trans [OF evolves_scan_entries evolves_set_scanned]]
  by (simp add: scan_archive_def Let_def evolves_hash_insert_init)

lemma scan_archive_snd:
  "snd (scan_archive e f1 hc) =
     snd hc @ (if f_member f1 \<noteq> '''' \<and> \<not> is_scanned (fst hc) (archive_name e f1)
               then [Archscan (archive_name e f1)] else [])"
  by (simp add: scan_archive_def Let_def)

section \<open>The scanning phase\<close>

lemma started_after_set_progress:
  "h k \<noteq> None \<Longrightarrow> started (set_progress h k BIND_NOENTRY) k"
  by (simp add: started_def progress_of_set_progress)

lemma scanning_started:
  "started h k \<Longrightarrow> scanning e k (h, cs) = (h, cs)"
  by (cases "h k") (auto simp: scanning_def Let_def started_def progress_of_def hash_insert_init_def)

lemma scanning_init:
  "progress_of (hash_insert_init h k) k = Some BIND_INIT \<Longrightarrow>
   scanning e k (h, cs) =
     scan_archive e (path_parse e k)
       (scan_directory e (path_parse e k)
          (set_progress (hash_insert_init h k) k BIND_NOENTRY, cs))"
  by (simp add: scanning_def Let_def)

lemma scanning_not_init:
  "progress_of (hash_insert_init h k) k \<noteq> Some BIND_INIT \<Longrightarrow>
   scanning e k (h, cs) = (hash_insert_init h k, cs)"
  by (simp add: scanning_def Let_def)

lemma scanning_fst: "evolves h (fst (scanning e k (h, cs)))"
proof (cases "progress_of (hash_insert_init h k) k = Some BIND_INIT")
  case False
  then show ?thesis
    by (simp add: scanning_not_init evolves_hash_insert_init)
next
  case True
  let ?h2 = "set_progress (hash_insert_init h k) k BIND_NOENTRY"
  let ?d = "scan_directory e (path_parse e k) (?h2, cs)"
  have "evolves h ?h2"
    using evolves_trans [OF evolves_hash_insert_init evolves_set_progress [OF True]] .
  moreover have "evolves ?h2 (fst ?d)"
    using scan_directory_fst [of "(?h2, cs)"] by simp
  moreover have "evolves (fst ?d) (fst (scan_archive e (path_parse e k) ?d))"
    by (rule scan_archive_fst)
  ultimately have "evolves h (fst (scan_archive e (path_parse e k) ?d))"
    by (blast intro: evolves_trans)
  then show ?thesis
    using True by (simp add: scanning_init)
qed

lemma scanning_target_started: "started (fst (scanning e k (h, cs))) k"
proof (cases "progress_of (hash_insert_init h k) k = Some BIND_INIT")
  case False
  then show ?thesis
    by (simp add: scanning_not_init started_def progress_of_def hash_insert_init_apply)
next
  case True
  let ?h2 = "set_progress (hash_insert_init h k) k BIND_NOENTRY"
  let ?d = "scan_directory e (path_parse e k) (?h2, cs)"
  have "hash_insert_init h k k \<noteq> None"
    by (simp add: hash_insert_init_apply)
  then have "started ?h2 k"
    by (rule started_after_set_progress)
  moreover have "evolves ?h2 (fst ?d)"
    using scan_directory_fst [of "(?h2, cs)"] by simp
  moreover have "evolves (fst ?d) (fst (scan_archive e (path_parse e k) ?d))"
    by (rule scan_archive_fst)
  ultimately have "started (fst (scan_archive e (path_parse e k) ?d)) k"
    by (simp add: evolves_def)
  then show ?thesis
    using True by (simp add: scanning_init)
qed

lemma scanning_snd:
  "\<exists>as. snd (scanning e k (h, cs)) =
          cs @ (if progress_of (hash_insert_init h k) k = Some BIND_INIT
                   \<and> \<not> is_scanned h (directory_name e (path_parse e k))
                then [Dirscan (directory_name e (path_parse e k))] else []) @ as
        \<and> (as = [] \<or> (\<exists>a. as = [Archscan a]))"
proof (cases "progress_of (hash_insert_init h k) k = Some BIND_INIT")
  case False
  then show ?thesis
    by (simp add: scanning_not_init)
next
  case True
  then show ?thesis
    by (simp add: scanning_init scan_archive_snd scan_directory_snd)
qed

lemma scanning_directory_scanned:
  assumes "progress_of (hash_insert_init h k) k = Some BIND_INIT"
  shows "is_scanned (fst (scanning e k (h, cs))) (directory_name e (path_parse e k))"
proof -
  let ?h2 = "set_progress (hash_insert_init h k) k BIND_NOENTRY"
  let ?d = "scan_directory e (path_parse e k) (?h2, cs)"
  have "is_scanned (fst ?d) (directory_name e (path_parse e k))"
    by (rule scan_directory_scanned)
  moreover have "evolves (fst ?d) (fst (scan_archive e (path_parse e k) ?d))"
    by (rule scan_archive_fst)
  ultimately have "is_scanned (fst (scan_archive e (path_parse e k) ?d)) (directory_name e (path_parse e k))"
    by (simp add: evolves_def)
  then show ?thesis
    using assms by (simp add: scanning_init)
qed

section \<open>The probe of a spotted binding\<close>

lemma probe_not_spotted:
  "progress_of (fst hc) k \<noteq> Some BIND_SPOTTED \<Longrightarrow> probe e k hc = hc"
  by (simp add: probe_def progress_of_def split: option.splits)

lemma probe_apply:
  "fst (probe e k hc) k' =
     (if k' = k then
        (case fst hc k of
           None \<Rightarrow> None
         | Some b \<Rightarrow>
             if progress b = BIND_SPOTTED
             then Some (b\<lparr>time := snd (file_time e (name b) (time b)),
                         progress := (if fst (file_time e (name b) (time b)) < 0
                                      then BIND_MISSING else BIND_FOUND)\<rparr>)
             else Some b)
      else fst hc k')"
  by (simp add: probe_def Let_def split: option.splits)

lemma probe_fst: "evolves (fst hc) (fst (probe e k hc))"
  by (auto simp: evolves_def is_scanned_def started_def seen_def progress_of_def probe_apply
      split: option.splits)

lemma probe_snd:
  "snd (probe e k hc) =
     snd hc @ (case fst hc k of
                 None \<Rightarrow> []
               | Some b \<Rightarrow> if progress b = BIND_SPOTTED then [File_time (name b)] else [])"
  by (simp add: probe_def Let_def split: option.splits)

lemma probe_settles:
  "started (fst hc) k \<Longrightarrow>
   started (fst (probe e k hc)) k \<and> progress_of (fst (probe e k hc)) k \<noteq> Some BIND_SPOTTED"
  by (auto simp: started_def progress_of_def probe_apply split: option.splits)

section \<open>The query as a whole\<close>

lemma open_bindhash_table:
  "bindhash s \<noteq> Freed \<Longrightarrow> open_bindhash (bindhash s) = Inr (table s)"
  by (cases "bindhash s") (simp_all add: open_bindhash_def table_def)

lemma timestamp_from_path_unfold:
  "bindhash s \<noteq> Freed \<Longrightarrow>
   timestamp_from_path e s p =
     Inr (afterscanning e (path_as_key e p) (scanning e (path_as_key e p) (table s, calls s)))"
  by (simp add: timestamp_from_path_def open_bindhash_table Let_def)

lemma timestamp_from_path_freed:
  "bindhash s = Freed \<Longrightarrow> timestamp_from_path e s p = Inl Use_after_free"
  by (simp add: timestamp_from_path_def open_bindhash_def)

text \<open>The state in which a query leaves the binding of its key.\<close>

lemma timestamp_from_path_settles:
  assumes "timestamp_from_path e s p = Inr (t, s')"
  shows "bindhash s' = Live (table s') \<and> started (table s') (path_as_key e p)
       \<and> progress_of (table s') (path_as_key e p) \<noteq> Some BIND_SPOTTED
       \<and> t = result_time (table s') (path_as_key e p)"
proof -
  let ?k = "path_as_key e p"
  let ?sc = "scanning e ?k (table s, calls s)"
  have nf: "bindhash s \<noteq> Freed"
    using assms by (auto simp: timestamp_from_path_freed)
  have eq: "(t, s') = afterscanning e ?k ?sc"
    using assms nf by (simp add: timestamp_from_path_unfold)
  have st: "started (fst ?sc) ?k"
    by (rule scanning_target_started)
  have tab: "table s' = fst (probe e ?k ?sc)" "bindhash s' = Live (table s')"
    and res: "t = result_time (table s') ?k"
    using eq by (simp_all add: afterscanning_def Let_def table_def)
  from probe_settles [OF st, of e] tab res show ?thesis
    by simp
qed

text \<open>A query of a key whose binding is settled changes nothing.\<close>

lemma timestamp_from_path_settled:
  assumes "bindhash s = Live h" "started h (path_as_key e p)"
    "progress_of h (path_as_key e p) \<noteq> Some BIND_SPOTTED"
  shows "timestamp_from_path e s p = Inr (result_time h (path_as_key e p), s)"
proof -
  have "table s = h" "bindhash s \<noteq> Freed"
    using assms(1) by (simp_all add: table_def)
  moreover have "s = \<lparr>bindhash = Live h, calls = calls s\<rparr>"
    using assms(1) by simp
  ultimately show ?thesis
    using assms(2,3)
    by (simp add: timestamp_from_path_unfold scanning_started afterscanning_def probe_not_spotted)
qed

text \<open>A query returns unless the table has been released.\<close>

lemma timestamp_from_path_total:
  "bindhash s \<noteq> Freed \<Longrightarrow> \<exists>t s'. timestamp_from_path e s p = Inr (t, s')"
  by (simp add: timestamp_from_path_unfold afterscanning_def Let_def)

section \<open>Unfolding the model on the example\<close>

lemmas example_defs =
  example_env_def example_parse_def example_parent_def example_build_def
  parent_directory_def parent_archive_def directory_name_def archive_name_def entry_keys_def

lemmas model_defs =
  timestamp_from_path_def initial_state_def open_bindhash_def scanning_def
  afterscanning_def probe_def result_time_def scan_directory_def scan_archive_def
  hash_insert_init_def progress_of_def set_progress_def table_def
  is_scanned_def set_scanned_def scan_entries_def time_enter_def
  BIND_SCANNED_def timestamp_clear_def Let_def

section \<open>Repeated queries\<close>

text \<open>
  Claim C2. For every path p, calling \<^verbatim>\<open>timestamp_from_path\<close> twice with nothing changed
  in between returns equal timestamps both times, and the second call performs no directory
  or archive scan: it returns the time of the first call and leaves the state, and with it
  the log of collaborator calls, as the first call left it. The first call returns whenever
  the table has not been released.
\<close>

theorem resolve_twice_same:
  assumes "bindhash s \<noteq> Freed"
  shows "\<exists>t s' t2 s2. timestamp_from_path e s p = Inr (t, s')
           \<and> timestamp_from_path e s' p = Inr (t2, s2)
           \<and> t2 = t \<and> calls s2 = calls s' \<and> s2 = s'"
proof -
  from timestamp_from_path_total [OF assms] obtain t s'
    where first: "timestamp_from_path e s p = Inr (t, s')" by blast
  from timestamp_from_path_settles [OF first]
  have "timestamp_from_path e s' p = Inr (t, s')"
    by (simp add: timestamp_from_path_settled)
  with first show ?thesis by simp
qed

theorem resolve_twice_same_witness:
  "bindhash initial_state \<noteq> Freed
   \<and> (\<exists>t s' t2 s2. timestamp_from_path example_env initial_state ''d/a'' = Inr (t, s')
           \<and> timestamp_from_path example_env s' ''d/a'' = Inr (t2, s2)
           \<and> t2 = t \<and> calls s2 = calls s' \<and> s2 = s')"
  using resolve_twice_same [of initial_state example_env "''d/a''"] by (simp add: initial_state_def)

section \<open>The time a query returns\<close>

lemma result_time_cases:
  "h k = Some b \<Longrightarrow>
   (if progress b = BIND_FOUND then result_time h k = time b
    else result_time h k = timestamp_clear \<and> timestamp_empty (result_time h k) = 1)"
  by (simp add: result_time_def timestamp_empty_def timestamp_clear_def)

lemma scan_directory_untouched:
  assumes "fst hc k \<noteq> None" "k \<notin> entry_keys e (file_dirscan e (directory_name e f1))"
  shows "progress_of (fst (scan_directory e f1 hc)) k = progress_of (fst hc) k"
  using assms
  by (auto simp: scan_directory_def Let_def progress_of_def scan_entries_untouched
      hash_insert_init_apply set_scanned_apply option.map_comp comp_def)

lemma scan_archive_untouched:
  assumes "fst hc k \<noteq> None" "k \<notin> entry_keys e (file_archscan e (archive_name e f1))"
  shows "progress_of (fst (scan_archive e f1 hc)) k = progress_of (fst hc) k"
  using assms
  by (auto simp: scan_archive_def Let_def progress_of_def scan_entries_untouched
      hash_insert_init_apply set_scanned_apply option.map_comp comp_def)

lemma scanning_absent:
  assumes "\<not> seen h k"
    and "k \<notin> entry_keys e (file_dirscan e (directory_name e (path_parse e k)))"
    and "k \<notin> entry_keys e (file_archscan e (archive_name e (path_parse e k)))"
  shows "progress_of (fst (scanning e k (h, cs))) k = Some BIND_NOENTRY"
proof (cases "progress_of (hash_insert_init h k) k = Some BIND_INIT")
  case False
  with assms(1) show ?thesis
    by (cases "h k"; cases "progress (the (h k))")
      (auto simp: scanning_not_init seen_def progress_of_def hash_insert_init_apply)
next
  case True
  let ?h2 = "set_progress (hash_insert_init h k) k BIND_NOENTRY"
  let ?d = "scan_directory e (path_parse e k) (?h2, cs)"
  have d1: "hash_insert_init h k k \<noteq> None"
    by (simp add: hash_insert_init_apply)
  have p2: "progress_of ?h2 k = Some BIND_NOENTRY"
    using d1 by (simp add: progress_of_set_progress)
  have d2: "?h2 k \<noteq> None"
    using d1 by (simp add: set_progress_apply)
  have pd: "progress_of (fst ?d) k = Some BIND_NOENTRY"
    using scan_directory_untouched [of "(?h2, cs)" k e "path_parse e k"] d2 assms(2) p2 by simp
  then have "fst ?d k \<noteq> None"
    by (auto simp: progress_of_def)
  from scan_archive_untouched [OF this assms(3)] pd
  have "progress_of (fst (scan_archive e (path_parse e k) ?d)) k = Some BIND_NOENTRY"
    by simp
  then show ?thesis
    using True by (simp add: scanning_init)
qed

text \<open>
  Claim C3. For every path p, \<^verbatim>\<open>timestamp_from_path\<close> returns a copy of the time stored
  in the binding of p exactly when the final progress of that binding is \<^verbatim>\<open>BIND_FOUND\<close>,
  and the empty timestamp, for which \<^verbatim>\<open>timestamp_empty\<close> holds, in every other case.
  That includes a path that does not exist: when no scan had seen the path and neither the
  scan of its directory nor that of its archive reports it, the binding ends as
  \<^verbatim>\<open>BIND_NOENTRY\<close> and the empty timestamp is returned.
\<close>

theorem resolve_result:
  assumes "bindhash s \<noteq> Freed"
  shows "\<exists>t s' b. timestamp_from_path e s p = Inr (t, s')
           \<and> bindhash s' = Live (table s')
           \<and> table s' (path_as_key e p) = Some b
           \<and> (if progress b = BIND_FOUND then t = time b
              else t = timestamp_clear \<and> timestamp_empty t = 1)
           \<and> (\<not> seen (table s) (path_as_key e p)
                \<and> path_as_key e p \<notin> entry_keys e (file_dirscan e (parent_directory e p))
                \<and> path_as_key e p \<notin> entry_keys e (file_archscan e (parent_archive e p))
              \<longrightarrow> progress b = BIND_NOENTRY \<and> t = timestamp_clear)"
proof -
  let ?k = "path_as_key e p"
  let ?sc = "scanning e ?k (table s, calls s)"
  from timestamp_from_path_total [OF assms] obtain t s'
    where first: "timestamp_from_path e s p = Inr (t, s')" by blast
  from timestamp_from_path_settles [OF first]
  have live: "bindhash s' = Live (table s')" and st: "started (table s') ?k"
    and res: "t = result_time (table s') ?k"
    by simp_all
  from st obtain b where b: "table s' ?k = Some b"
    by (auto simp: started_def progress_of_def)
  have cases: "if progress b = BIND_FOUND then t = time b
               else t = timestamp_clear \<and> timestamp_empty t = 1"
    using result_time_cases [of "table s'" ?k b] b res by (auto split: if_splits)
  have absent: "progress b = BIND_NOENTRY \<and> t = timestamp_clear"
    if a: "\<not> seen (table s) ?k"
      "?k \<notin> entry_keys e (file_dirscan e (parent_directory e p))"
      "?k \<notin> entry_keys e (file_archscan e (parent_archive e p))"
  proof -
    have ne: "progress_of (fst ?sc) ?k = Some BIND_NOENTRY"
      using a by (simp add: scanning_absent parent_directory_def parent_archive_def)
    have "(t, s') = afterscanning e ?k ?sc"
      using first assms by (simp add: timestamp_from_path_unfold)
    then have "table s' = fst (probe e ?k ?sc)"
      by (simp add: afterscanning_def Let_def table_def)
    with ne have "progress_of (table s') ?k = Some BIND_NOENTRY"
      by (simp add: probe_not_spotted)
    with b have "progress b = BIND_NOENTRY"
      by (simp add: progress_of_def)
    with cases show ?thesis by simp
  qed
  from first live b cases absent show ?thesis
    by blast
qed

theorem resolve_result_witness:
  "bindhash initial_state \<noteq> Freed
   \<and> \<not> seen (table initial_state) (path_as_key example_env ''d/b'')
   \<and> path_as_key example_env ''d/b''
        \<notin> entry_keys example_env (file_dirscan example_env (parent_directory example_env ''d/b''))
   \<and> path_as_key example_env ''d/b''
        \<notin> entry_keys example_env (file_archscan example_env (parent_archive example_env ''d/b''))
   \<and> (\<exists>s'. timestamp_from_path example_env initial_state ''d/b'' = Inr (timestamp_clear, s')
         \<and> progress_of (table s') (path_as_key example_env ''d/b'') = Some BIND_NOENTRY)"
proof -
  have h1: "bindhash initial_state \<noteq> Freed"
    by (simp add: initial_state_def)
  have h2: "\<not> seen (table initial_state) (path_as_key example_env ''d/b'')"
    by (simp add: initial_state_def table_def seen_def progress_of_def)
  have h3: "path_as_key example_env ''d/b''
        \<notin> entry_keys example_env (file_dirscan example_env (parent_directory example_env ''d/b''))"
    by (simp add: example_defs)
  have h4: "path_as_key example_env ''d/b''
        \<notin> entry_keys example_env (file_archscan example_env (parent_archive example_env ''d/b''))"
    by (simp add: example_defs)
  from resolve_result [OF h1, of example_env "''d/b''"] h2 h3 h4
  have "\<exists>s'. timestamp_from_path example_env initial_state ''d/b'' = Inr (timestamp_clear, s')
         \<and> progress_of (table s') (path_as_key example_env ''d/b'') = Some BIND_NOENTRY"
    by (auto simp: progress_of_def)
  with h1 h2 h3 h4 show ?thesis by blast
qed

section \<open>The direct probe\<close>

text \<open>
  Claim C4. After the scanning phase of \<^verbatim>\<open>timestamp_from_path\<close>, which leaves the table
  h and the log cs, the direct probe \<^verbatim>\<open>file_time\<close> is called if and only if the progress
  of the target binding is \<^verbatim>\<open>BIND_SPOTTED\<close>. The probe is handed the name and the time
  of the binding; when it succeeds the progress becomes \<^verbatim>\<open>BIND_FOUND\<close> and the binding
  holds the probed time, when it fails the progress becomes \<^verbatim>\<open>BIND_MISSING\<close>. In any
  other progress state neither the table nor the log changes.
\<close>

theorem probe_iff_spotted:
  assumes "bindhash s \<noteq> Freed"
    and "scanning e (path_as_key e p) (table s, calls s) = (h, cs)"
  shows "\<exists>b t s'. h (path_as_key e p) = Some b
           \<and> timestamp_from_path e s p = Inr (t, s')
           \<and> bindhash s' = Live (table s')
           \<and> (if progress b = BIND_SPOTTED
              then calls s' = cs @ [File_time (name b)]
                 \<and> table s' = h(path_as_key e p \<mapsto>
                      b\<lparr>time := snd (file_time e (name b) (time b)),
                        progress := (if fst (file_time e (name b) (time b)) < 0
                                     then BIND_MISSING else BIND_FOUND)\<rparr>)
              else calls s' = cs \<and> table s' = h)"
proof -
  let ?k = "path_as_key e p"
  have "started h ?k"
    using scanning_target_started [of e ?k "table s" "calls s"] assms(2) by simp
  then obtain b where b: "h ?k = Some b"
    by (auto simp: started_def progress_of_def)
  have "timestamp_from_path e s p = Inr (afterscanning e ?k (h, cs))"
    using assms by (simp add: timestamp_from_path_unfold)
  with b show ?thesis
    by (simp add: afterscanning_def probe_def Let_def table_def)
qed

theorem probe_iff_spotted_witness:
  "bindhash initial_state \<noteq> Freed
   \<and> (\<exists>t s'. timestamp_from_path example_env initial_state ''d/l(m)'' = Inr (t, s')
         \<and> calls s' = [Dirscan ''d'', Archscan ''d/l'', File_time ''d/l(m)'']
         \<and> progress_of (table s') ''d/l(m)'' = Some BIND_FOUND
         \<and> t = \<lparr>secs = 3000, nsecs = 0\<rparr>)"
proof -
  let ?sc = "scanning example_env (path_as_key example_env ''d/l(m)'')
               (table initial_state, calls initial_state)"
  have h1: "bindhash initial_state \<noteq> Freed"
    by (simp add: initial_state_def)
  have h2: "?sc = (fst ?sc, snd ?sc)"
    by simp
  show ?thesis
    using probe_iff_spotted [OF h1 h2] h1
    by (simp add: timestamp_from_path_def initial_state_def open_bindhash_def scanning_def
        afterscanning_def probe_def result_time_def scan_directory_def scan_archive_def
        hash_insert_init_def progress_of_def set_progress_def table_def
        example_defs is_scanned_def set_scanned_def scan_entries_def time_enter_def
        BIND_SCANNED_def timestamp_clear_def Let_def)
qed

section \<open>Queries of a settled key\<close>

lemma resolve_all_settled:
  assumes "bindhash s = Live h" "started h k" "progress_of h k \<noteq> Some BIND_SPOTTED"
    and "\<forall>p\<in>set ps. path_as_key e p = k"
  shows "resolve_all e s ps = Inr (replicate (length ps) (result_time h k), s)"
  using assms(4)
proof (induction ps)
  case Nil
  show ?case by simp
next
  case (Cons p ps)
  then have k: "path_as_key e p = k" and rest: "\<forall>p\<in>set ps. path_as_key e p = k"
    by simp_all
  have "timestamp_from_path e s p = Inr (result_time h k, s)"
    using timestamp_from_path_settled [of s h e p] assms(1-3) k by simp
  with Cons.IH [OF rest] show ?case by simp
qed

lemma probes_append [simp]: "probes (xs @ ys) = probes xs + probes ys"
  by (simp add: probes_def)

lemma timestamp_from_path_probes:
  assumes "timestamp_from_path e s p = Inr (t, s')"
  shows "probes (calls s') \<le> probes (calls s) + 1"
proof -
  let ?k = "path_as_key e p"
  let ?sc = "scanning e ?k (table s, calls s)"
  have nf: "bindhash s \<noteq> Freed"
    using assms by (auto simp: timestamp_from_path_freed)
  then have "(t, s') = afterscanning e ?k ?sc"
    using assms by (simp add: timestamp_from_path_unfold)
  then have c: "calls s' = snd (probe e ?k ?sc)"
    by (simp add: afterscanning_def Let_def)
  from scanning_snd [of e ?k "table s" "calls s"]
  have "probes (snd ?sc) = probes (calls s)"
    by (auto simp: probes_def)
  moreover have "probes (snd (probe e ?k ?sc)) \<le> probes (snd ?sc) + 1"
    by (simp add: probe_snd probes_def split: option.splits)
  ultimately show ?thesis
    using c by simp
qed

section \<open>A missing binding stays missing\<close>

text \<open>
  Claim C10. Once the binding of a key is \<^verbatim>\<open>BIND_MISSING\<close>, every following query of
  that key returns the empty timestamp and calls nothing: the state, with its log, stays as
  it is, so the probe is not repeated. The probe is called from \<^verbatim>\<open>BIND_SPOTTED\<close> only:
  in any run of queries of one key, from any state, it is called at most once.
\<close>

theorem missing_is_final:
  assumes "\<forall>p\<in>set ps. path_as_key e p = k"
  shows "(bindhash s = Live h \<and> progress_of h k = Some BIND_MISSING \<longrightarrow>
            resolve_all e s ps = Inr (replicate (length ps) timestamp_clear, s)
            \<and> timestamp_empty timestamp_clear = 1)
       \<and> (bindhash s \<noteq> Freed \<longrightarrow>
            (\<exists>ts s'. resolve_all e s ps = Inr (ts, s') \<and> probes (calls s') \<le> probes (calls s) + 1))"
proof (intro conjI impI)
  assume a: "bindhash s = Live h \<and> progress_of h k = Some BIND_MISSING"
  then have "started h k" "progress_of h k \<noteq> Some BIND_SPOTTED"
    by (simp_all add: started_def)
  moreover have "result_time h k = timestamp_clear"
    using a by (auto simp: result_time_def progress_of_def split: option.splits)
  ultimately show "resolve_all e s ps = Inr (replicate (length ps) timestamp_clear, s)"
    using resolve_all_settled [of s h k ps e] a assms by simp
next
  show "timestamp_empty timestamp_clear = 1"
    by (simp add: timestamp_empty_def timestamp_clear_def)
next
  assume nf: "bindhash s \<noteq> Freed"
  show "\<exists>ts s'. resolve_all e s ps = Inr (ts, s') \<and> probes (calls s') \<le> probes (calls s) + 1"
  proof (cases ps)
    case Nil
    then show ?thesis by simp
  next
    case (Cons p qs)
    with assms have k: "path_as_key e p = k" and rest: "\<forall>p\<in>set qs. path_as_key e p = k"
      by simp_all
    from timestamp_from_path_total [OF nf] obtain t s1
      where first: "timestamp_from_path e s p = Inr (t, s1)" by blast
    from timestamp_from_path_settles [OF first] k
    have "bindhash s1 = Live (table s1)" "started (table s1) k"
      "progress_of (table s1) k \<noteq> Some BIND_SPOTTED"
      by simp_all
    from resolve_all_settled [OF this rest]
    have "resolve_all e s1 qs = Inr (replicate (length qs) (result_time (table s1) k), s1)" .
    with first Cons timestamp_from_path_probes [OF first] show ?thesis
      by simp
  qed
qed

theorem missing_is_final_witness:
  "path_as_key example_env ''d/l(x)'' = ''d/l(x)''
   \<and> progress_of (table (snd (projr (timestamp_from_path example_env initial_state ''d/l(x)''))))
        ''d/l(x)'' = Some BIND_MISSING
   \<and> resolve_all example_env
        (snd (projr (timestamp_from_path example_env initial_state ''d/l(x)'')))
        [''d/l(x)'', ''d/l(x)'']
       = Inr ([timestamp_clear, timestamp_clear],
              snd (projr (timestamp_from_path example_env initial_state ''d/l(x)'')))"
proof -
  let ?S = "snd (projr (timestamp_from_path example_env initial_state ''d/l(x)''))"
  have key: "\<forall>p\<in>set [''d/l(x)'', ''d/l(x)'']. path_as_key example_env p = ''d/l(x)''"
    by (simp add: example_env_def)
  have live: "bindhash ?S = Live (table ?S)"
    by (simp add: timestamp_from_path_def initial_state_def open_bindhash_def afterscanning_def
        table_def Let_def)
  have missing: "progress_of (table ?S) ''d/l(x)'' = Some BIND_MISSING"
    by (simp add: model_defs example_defs)
  from missing_is_final [OF key, of ?S "table ?S"] live missing
  have "resolve_all example_env ?S [''d/l(x)'', ''d/l(x)'']
          = Inr ([timestamp_clear, timestamp_clear], ?S)"
    by (simp add: numeral_2_eq_2)
  with missing show ?thesis
    by (simp add: example_env_def)
qed

section \<open>Shutdown\<close>

text \<open>
  Claim C6 as it is written: \<^verbatim>\<open>timestamp_done\<close> followed by a query behaves as on a
  newly created cache. It does not. On a new cache the query of \<open>d/a\<close> returns the time
  the directory scan reports; after that query and a shutdown, the same query works on the
  released table.
\<close>

theorem shutdown_then_resolve_fails:
  "resolve_after_shutdown example_env
     (snd (projr (timestamp_from_path example_env initial_state ''d/a''))) ''d/a''
     = Inl Use_after_free
   \<and> map_sum id fst (timestamp_from_path example_env initial_state ''d/a'')
     = Inr \<lparr>secs = 1000, nsecs = 5\<rparr>"
  by (simp add: model_defs example_defs resolve_after_shutdown_def timestamp_done_def)

text \<open>
  Claim C6, amended. \<^verbatim>\<open>timestamp_done\<close> releases the table and leaves the pointer
  \<^verbatim>\<open>bindhash\<close> as it is: it is the last operation of a run. When no table was ever
  created it does nothing, and a query after it behaves as on a newly created cache. When
  a table exists, the pointer refers to the released table afterwards, and a query after
  it creates no new table.
\<close>

theorem shutdown_is_final:
  "(bindhash s = Null \<longrightarrow>
      timestamp_done s = Inr s
      \<and> resolve_after_shutdown e s p = timestamp_from_path e \<lparr>bindhash = Null, calls = calls s\<rparr> p)
   \<and> (bindhash s = Live h \<longrightarrow>
      timestamp_done s = Inr (s\<lparr>bindhash := Freed\<rparr>)
      \<and> resolve_after_shutdown e s p = Inl Use_after_free)"
  by (simp add: timestamp_done_def resolve_after_shutdown_def timestamp_from_path_def
      open_bindhash_def Let_def)

theorem shutdown_is_final_witness:
  "bindhash initial_state = Null
   \<and> timestamp_done initial_state = Inr initial_state
   \<and> resolve_after_shutdown example_env initial_state ''d/a''
       = timestamp_from_path example_env \<lparr>bindhash = Null, calls = calls initial_state\<rparr> ''d/a''
   \<and> bindhash (snd (projr (timestamp_from_path example_env initial_state ''d/a'')))
       = Live (table (snd (projr (timestamp_from_path example_env initial_state ''d/a''))))
   \<and> resolve_after_shutdown example_env
        (snd (projr (timestamp_from_path example_env initial_state ''d/a''))) ''d/b''
       = Inl Use_after_free"
proof -
  let ?S = "snd (projr (timestamp_from_path example_env initial_state ''d/a''))"
  have null: "bindhash initial_state = Null"
    by (simp add: initial_state_def)
  have live: "bindhash ?S = Live (table ?S)"
    by (simp add: timestamp_from_path_def initial_state_def open_bindhash_def afterscanning_def
        table_def Let_def)
  from shutdown_is_final [of initial_state example_env "''d/a''" "table ?S"] null
  have a: "timestamp_done initial_state = Inr initial_state
      \<and> resolve_after_shutdown example_env initial_state ''d/a''
          = timestamp_from_path example_env \<lparr>bindhash = Null, calls = calls initial_state\<rparr> ''d/a''"
    by blast
  from shutdown_is_final [of ?S example_env "''d/b''" "table ?S"] live
  have b: "resolve_after_shutdown example_env ?S ''d/b'' = Inl Use_after_free"
    by blast
  from null a live b show ?thesis by blast
qed

section \<open>Steps of a run\<close>

lemma timestamp_from_path_evolves:
  assumes "timestamp_from_path e s p = Inr (t, s')"
  shows "evolves (table s) (table s')"
proof -
  let ?k = "path_as_key e p"
  let ?sc = "scanning e ?k (table s, calls s)"
  have nf: "bindhash s \<noteq> Freed"
    using assms by (auto simp: timestamp_from_path_freed)
  then have "(t, s') = afterscanning e ?k ?sc"
    using assms by (simp add: timestamp_from_path_unfold)
  then have "table s' = fst (probe e ?k ?sc)"
    by (simp add: afterscanning_def Let_def table_def)
  moreover have "evolves (table s) (fst ?sc)"
    by (rule scanning_fst)
  moreover have "evolves (fst ?sc) (fst (probe e ?k ?sc))"
    by (rule probe_fst)
  ultimately show ?thesis
    by (auto intro: evolves_trans)
qed

lemma apply_operation_live:
  assumes "bindhash s = Live h"
  shows "\<exists>s'. apply_operation e s x = Inr s' \<and> bindhash s' = Live (table s')
           \<and> evolves h (table s')"
proof (cases x)
  case (Resolve p)
  have nf: "bindhash s \<noteq> Freed" and tab: "table s = h"
    using assms by (simp_all add: table_def)
  from timestamp_from_path_total [OF nf] obtain t s'
    where first: "timestamp_from_path e s p = Inr (t, s')" by blast
  from timestamp_from_path_settles [OF first] timestamp_from_path_evolves [OF first] tab first Resolve
  show ?thesis by simp
next
  case (Enter target found t)
  with assms show ?thesis
    by (simp add: table_def evolves_time_enter)
qed

lemma apply_operations_live:
  "bindhash s = Live h \<Longrightarrow>
   \<exists>s'. apply_operations e s xs = Inr s' \<and> bindhash s' = Live (table s') \<and> evolves h (table s')"
proof (induction xs arbitrary: s h)
  case Nil
  then show ?case by (simp add: table_def)
next
  case (Cons x xs)
  from apply_operation_live [OF Cons.prems, of e x] obtain s1
    where s1: "apply_operation e s x = Inr s1" "bindhash s1 = Live (table s1)"
      "evolves h (table s1)" by blast
  from Cons.IH [OF s1(2)] obtain s2
    where s2: "apply_operations e s1 xs = Inr s2" "bindhash s2 = Live (table s2)"
      "evolves (table s1) (table s2)" by blast
  from s1 s2 evolves_trans [OF s1(3) s2(3)] show ?case by simp
qed

section \<open>Progress does not go back\<close>

text \<open>
  Claim C5. For every binding and every sequence of queries and scan callbacks within a
  run: once the progress of the binding is \<^verbatim>\<open>BIND_FOUND\<close> or \<^verbatim>\<open>BIND_MISSING\<close>, it is
  never \<^verbatim>\<open>BIND_INIT\<close> or \<^verbatim>\<open>BIND_NOENTRY\<close> again, and the binding stays in the table.
  The sequence runs to its end.
\<close>

theorem progress_never_regresses:
  assumes "bindhash s = Live h"
    and "progress_of h k = Some BIND_FOUND \<or> progress_of h k = Some BIND_MISSING"
  shows "\<exists>s' h'. apply_operations e s ops = Inr s' \<and> bindhash s' = Live h'
           \<and> progress_of h' k \<noteq> Some BIND_INIT \<and> progress_of h' k \<noteq> Some BIND_NOENTRY
           \<and> progress_of h' k \<noteq> None"
proof -
  from apply_operations_live [OF assms(1), of e ops] obtain s'
    where s': "apply_operations e s ops = Inr s'" "bindhash s' = Live (table s')"
      "evolves h (table s')" by blast
  have "seen h k"
    using assms(2) by (auto simp: seen_def)
  with s'(3) have "seen (table s') k"
    by (simp add: evolves_def)
  then have "progress_of (table s') k \<noteq> Some BIND_INIT \<and> progress_of (table s') k \<noteq> Some BIND_NOENTRY
           \<and> progress_of (table s') k \<noteq> None"
    by (auto simp: seen_def)
  with s'(1,2) show ?thesis by blast
qed

theorem progress_never_regresses_witness:
  "progress_of (table (snd (projr (timestamp_from_path example_env initial_state ''d/a''))))
      ''d/a'' = Some BIND_FOUND
   \<and> (\<exists>s' h'. apply_operations example_env
                  (snd (projr (timestamp_from_path example_env initial_state ''d/a'')))
                  [Resolve ''d/b'', Enter ''d/a'' 0 timestamp_clear, Resolve ''d/a''] = Inr s'
          \<and> bindhash s' = Live h'
          \<and> progress_of h' ''d/a'' \<noteq> Some BIND_INIT
          \<and> progress_of h' ''d/a'' \<noteq> Some BIND_NOENTRY
          \<and> progress_of h' ''d/a'' \<noteq> None)"
proof -
  let ?S = "snd (projr (timestamp_from_path example_env initial_state ''d/a''))"
  have live: "bindhash ?S = Live (table ?S)"
    by (simp add: timestamp_from_path_def initial_state_def open_bindhash_def afterscanning_def
        table_def Let_def)
  have found: "progress_of (table ?S) ''d/a'' = Some BIND_FOUND"
    by (simp add: model_defs example_defs)
  then have "progress_of (table ?S) ''d/a'' = Some BIND_FOUND
      \<or> progress_of (table ?S) ''d/a'' = Some BIND_MISSING"
    by simp
  from progress_never_regresses [OF live this] found show ?thesis
    by blast
qed

section \<open>Directory scans in a run\<close>

lemma not_started_iff:
  "progress_of (hash_insert_init h k) k = Some BIND_INIT \<longleftrightarrow> \<not> started h k"
  by (cases "h k") (auto simp: started_def progress_of_def hash_insert_init_apply)

lemma timestamp_from_path_dirscans:
  assumes "timestamp_from_path e s p = Inr (t, s')"
  shows "count_list (calls s') (Dirscan d) =
           count_list (calls s) (Dirscan d)
           + (if \<not> started (table s) (path_as_key e p)
                 \<and> \<not> is_scanned (table s) (parent_directory e p) \<and> d = parent_directory e p
              then 1 else 0)"
    and "\<not> started (table s) (path_as_key e p) \<Longrightarrow> is_scanned (table s') (parent_directory e p)"
proof -
  let ?k = "path_as_key e p"
  let ?sc = "scanning e ?k (table s, calls s)"
  have nf: "bindhash s \<noteq> Freed"
    using assms by (auto simp: timestamp_from_path_freed)
  then have eq: "(t, s') = afterscanning e ?k ?sc"
    using assms by (simp add: timestamp_from_path_unfold)
  then have c: "calls s' = snd (probe e ?k ?sc)" and tab: "table s' = fst (probe e ?k ?sc)"
    by (simp_all add: afterscanning_def Let_def table_def)
  from scanning_snd [of e ?k "table s" "calls s"]
  have "count_list (snd ?sc) (Dirscan d) =
           count_list (calls s) (Dirscan d)
           + (if \<not> started (table s) ?k
                 \<and> \<not> is_scanned (table s) (parent_directory e p) \<and> d = parent_directory e p
              then 1 else 0)"
    by (auto simp: not_started_iff parent_directory_def)
  moreover have "count_list (snd (probe e ?k ?sc)) (Dirscan d) = count_list (snd ?sc) (Dirscan d)"
    by (simp add: probe_snd split: option.splits)
  ultimately show "count_list (calls s') (Dirscan d) =
           count_list (calls s) (Dirscan d)
           + (if \<not> started (table s) (path_as_key e p)
                 \<and> \<not> is_scanned (table s) (parent_directory e p) \<and> d = parent_directory e p
              then 1 else 0)"
    using c by simp
  show "is_scanned (table s') (parent_directory e p)" if "\<not> started (table s) ?k"
  proof -
    have "is_scanned (fst ?sc) (parent_directory e p)"
      using that scanning_directory_scanned [of "table s" ?k e "calls s"]
      by (simp add: not_started_iff parent_directory_def)
    with probe_fst [of ?sc e ?k] tab show ?thesis
      by (simp add: evolves_def)
  qed
qed

lemma timestamp_from_path_log_ok:
  assumes "timestamp_from_path e s p = Inr (t, s')" "scan_log_ok s"
  shows "scan_log_ok s'"
  unfolding scan_log_ok_def
proof (intro allI conjI impI)
  fix d
  note cnt = timestamp_from_path_dirscans(1) [OF assms(1), of d]
  have old: "count_list (calls s) (Dirscan d) \<le> 1"
    "0 < count_list (calls s) (Dirscan d) \<Longrightarrow> is_scanned (table s) d"
    using assms(2) by (simp_all add: scan_log_ok_def)
  show "count_list (calls s') (Dirscan d) \<le> 1"
    using cnt old by (auto split: if_splits)
  show "is_scanned (table s') d" if "0 < count_list (calls s') (Dirscan d)"
  proof (cases "0 < count_list (calls s) (Dirscan d)")
    case True
    with old(2) timestamp_from_path_evolves [OF assms(1)] show ?thesis
      by (simp add: evolves_def)
  next
    case False
    with cnt that have "\<not> started (table s) (path_as_key e p)" "d = parent_directory e p"
      by (auto split: if_splits)
    with timestamp_from_path_dirscans(2) [OF assms(1)] show ?thesis
      by simp
  qed
qed

lemma timestamp_from_path_not_freed:
  "timestamp_from_path e s p = Inr (t, s') \<Longrightarrow> bindhash s' \<noteq> Freed"
  using timestamp_from_path_settles by fastforce

lemma resolve_all_log_ok:
  "bindhash s \<noteq> Freed \<Longrightarrow> scan_log_ok s \<Longrightarrow>
   \<exists>ts s'. resolve_all e s ps = Inr (ts, s') \<and> length ts = length ps \<and> scan_log_ok s'
      \<and> (\<forall>d. count_list (calls s) (Dirscan d) \<le> count_list (calls s') (Dirscan d))"
proof (induction ps arbitrary: s)
  case Nil
  then show ?case by simp
next
  case (Cons p ps)
  from timestamp_from_path_total [OF Cons.prems(1)] obtain t s1
    where first: "timestamp_from_path e s p = Inr (t, s1)" by blast
  have ok1: "scan_log_ok s1"
    using timestamp_from_path_log_ok [OF first Cons.prems(2)] .
  have nf1: "bindhash s1 \<noteq> Freed"
    using timestamp_from_path_not_freed [OF first] .
  from Cons.IH [OF nf1 ok1] obtain ts s2
    where rest: "resolve_all e s1 ps = Inr (ts, s2)" "length ts = length ps" "scan_log_ok s2"
      "\<forall>d. count_list (calls s1) (Dirscan d) \<le> count_list (calls s2) (Dirscan d)" by blast
  have "count_list (calls s) (Dirscan d) \<le> count_list (calls s2) (Dirscan d)" for d
    using timestamp_from_path_dirscans(1) [OF first, of d] rest(4) [rule_format, of d]
    by (simp split: if_splits)
  with first rest show ?case by simp
qed

text \<open>The directory shared by all queries of a run, and that of its first query.\<close>

lemma dirscan_shared_parent:
  "\<exists>ts s. resolve_all e initial_state ps = Inr (ts, s)
     \<and> length ts = length ps
     \<and> (\<forall>d. count_list (calls s) (Dirscan d) \<le> 1)
     \<and> (\<forall>d. ps \<noteq> [] \<and> (\<forall>p\<in>set ps. parent_directory e p = d)
            \<longrightarrow> count_list (calls s) (Dirscan d) = 1)
     \<and> (\<forall>p qs. ps = p # qs \<longrightarrow> count_list (calls s) (Dirscan (parent_directory e p)) = 1)"
proof (cases ps)
  case Nil
  then show ?thesis by (simp add: initial_state_def)
next
  case (Cons p qs)
  have nf: "bindhash initial_state \<noteq> Freed" and ok: "scan_log_ok initial_state"
    and fresh: "\<not> started (table initial_state) (path_as_key e p)"
      "\<not> is_scanned (table initial_state) (parent_directory e p)"
      "count_list (calls initial_state) (Dirscan (parent_directory e p)) = 0"
    by (simp_all add: initial_state_def scan_log_ok_def table_def started_def progress_of_def
        is_scanned_def)
  from timestamp_from_path_total [OF nf] obtain t s1
    where first: "timestamp_from_path e initial_state p = Inr (t, s1)" by blast
  have one: "count_list (calls s1) (Dirscan (parent_directory e p)) = 1"
    using timestamp_from_path_dirscans(1) [OF first, of "parent_directory e p"] fresh by simp
  have ok1: "scan_log_ok s1"
    using timestamp_from_path_log_ok [OF first ok] .
  have nf1: "bindhash s1 \<noteq> Freed"
    using timestamp_from_path_not_freed [OF first] .
  from resolve_all_log_ok [OF nf1 ok1, of e qs] obtain ts s2
    where rest: "resolve_all e s1 qs = Inr (ts, s2)" "length ts = length qs" "scan_log_ok s2"
      "\<forall>d. count_list (calls s1) (Dirscan d) \<le> count_list (calls s2) (Dirscan d)" by blast
  have le: "count_list (calls s2) (Dirscan d) \<le> 1" for d
    using rest(3) by (simp add: scan_log_ok_def)
  have "count_list (calls s2) (Dirscan (parent_directory e p)) = 1"
    using one rest(4) [rule_format, of "parent_directory e p"] le [of "parent_directory e p"]
    by simp
  with first rest(1,2) le Cons show ?thesis
    by auto
qed

section \<open>What a query can start and flag\<close>

lemma started_time_enter_rev:
  "started (time_enter e h target found t) k \<Longrightarrow> started h k \<or> k = path_as_key e target"
  by (auto simp: started_def progress_of_def time_enter_apply split: if_splits)

lemma is_scanned_time_enter_rev:
  "is_scanned (time_enter e h target found t) d \<Longrightarrow> is_scanned h d"
  by (auto simp: is_scanned_def time_enter_apply split: if_splits option.splits)

lemma started_scan_entries_rev:
  "started (scan_entries e h es) k \<Longrightarrow> started h k \<or> k \<in> entry_keys e es"
proof (induction es arbitrary: h)
  case Nil
  then show ?case by simp
next
  case (Cons x xs)
  from Cons.prems have "started (scan_entries e (time_enter e h (fst x) (fst (snd x)) (snd (snd x))) xs) k"
    by simp
  from Cons.IH [OF this] show ?case
    by (auto simp: entry_keys_def dest: started_time_enter_rev)
qed

lemma is_scanned_scan_entries_rev:
  "is_scanned (scan_entries e h es) d \<Longrightarrow> is_scanned h d"
  by (induction es arbitrary: h) (auto dest: is_scanned_time_enter_rev)

lemma started_hash_insert_init_iff [simp]:
  "started (hash_insert_init h key) k \<longleftrightarrow> started h k"
  by (cases "h k") (auto simp: started_def progress_of_def hash_insert_init_apply)

lemma started_set_scanned_iff [simp]:
  "started (set_scanned h key) k \<longleftrightarrow> started h k"
  by (simp add: started_def)

lemma started_set_progress_rev:
  "started (set_progress h key p) k \<Longrightarrow> started h k \<or> k = key"
  by (auto simp: started_def progress_of_set_progress split: if_splits)

lemma scan_directory_started_rev:
  "started (fst (scan_directory e f1 hc)) k \<Longrightarrow>
   started (fst hc) k \<or> k \<in> entry_keys e (file_dirscan e (directory_name e f1))"
  by (auto simp: scan_directory_def Let_def split: if_splits dest: started_scan_entries_rev)

lemma scan_directory_scanned_rev:
  "is_scanned (fst (scan_directory e f1 hc)) d \<Longrightarrow>
   is_scanned (fst hc) d \<or> d = directory_name e f1"
  by (auto simp: scan_directory_def Let_def is_scanned_set_scanned split: if_splits
      dest: is_scanned_scan_entries_rev)

lemma scan_archive_started_rev:
  "started (fst (scan_archive e f1 hc)) k \<Longrightarrow>
   started (fst hc) k
   \<or> (f_member f1 \<noteq> '''' \<and> k \<in> entry_keys e (file_archscan e (archive_name e f1)))"
  by (auto simp: scan_archive_def Let_def split: if_splits dest: started_scan_entries_rev)

lemma scan_archive_scanned_rev:
  "is_scanned (fst (scan_archive e f1 hc)) d \<Longrightarrow>
   is_scanned (fst hc) d \<or> (f_member f1 \<noteq> '''' \<and> d = archive_name e f1)"
  by (auto simp: scan_archive_def Let_def is_scanned_set_scanned split: if_splits
      dest: is_scanned_scan_entries_rev)

lemma scanning_started_rev:
  assumes "started (fst (scanning e k (h, cs))) k'"
  shows "started h k' \<or> k' = k
       \<or> k' \<in> entry_keys e (file_dirscan e (key_directory e k))
       \<or> (key_member e k \<and> k' \<in> entry_keys e (file_archscan e (key_archive e k)))"
proof (cases "progress_of (hash_insert_init h k) k = Some BIND_INIT")
  case False
  with assms show ?thesis
    by (simp add: scanning_not_init)
next
  case True
  let ?h2 = "set_progress (hash_insert_init h k) k BIND_NOENTRY"
  let ?d = "scan_directory e (path_parse e k) (?h2, cs)"
  from assms True have "started (fst (scan_archive e (path_parse e k) ?d)) k'"
    by (simp add: scanning_init)
  then have "started (fst ?d) k'
      \<or> (key_member e k \<and> k' \<in> entry_keys e (file_archscan e (key_archive e k)))"
    by (auto simp: key_member_def key_archive_def dest: scan_archive_started_rev)
  moreover have "started h k' \<or> k' = k \<or> k' \<in> entry_keys e (file_dirscan e (key_directory e k))"
    if "started (fst ?d) k'"
    using scan_directory_started_rev [OF that]
    by (auto simp: key_directory_def dest: started_set_progress_rev)
  ultimately show ?thesis by blast
qed

lemma scanning_scanned_rev:
  assumes "is_scanned (fst (scanning e k (h, cs))) d"
  shows "is_scanned h d \<or> (\<not> started h k \<and> d = key_directory e k)
       \<or> (\<not> started h k \<and> key_member e k \<and> d = key_archive e k)"
proof (cases "progress_of (hash_insert_init h k) k = Some BIND_INIT")
  case False
  with assms show ?thesis
    by (simp add: scanning_not_init)
next
  case True
  then have ns: "\<not> started h k"
    by (simp add: not_started_iff)
  let ?h2 = "set_progress (hash_insert_init h k) k BIND_NOENTRY"
  let ?d = "scan_directory e (path_parse e k) (?h2, cs)"
  from assms True have "is_scanned (fst (scan_archive e (path_parse e k) ?d)) d"
    by (simp add: scanning_init)
  then have "is_scanned (fst ?d) d \<or> (key_member e k \<and> d = key_archive e k)"
    by (auto simp: key_member_def key_archive_def dest: scan_archive_scanned_rev)
  moreover have "is_scanned h d \<or> d = key_directory e k" if "is_scanned (fst ?d) d"
    using scan_directory_scanned_rev [OF that] by (auto simp: key_directory_def)
  ultimately show ?thesis using ns by blast
qed

lemma probe_started_iff [simp]: "started (fst (probe e k hc)) k' \<longleftrightarrow> started (fst hc) k'"
  by (auto simp: started_def progress_of_def probe_apply split: option.splits if_splits)

lemma probe_scanned_iff [simp]: "is_scanned (fst (probe e k hc)) d \<longleftrightarrow> is_scanned (fst hc) d"
  by (auto simp: is_scanned_def probe_apply split: option.splits if_splits)

section \<open>Directory scans of well-behaved collaborators\<close>

lemma parent_directory_key: "parent_directory e p = key_directory e (path_as_key e p)"
  by (simp add: parent_directory_def key_directory_def)

lemma timestamp_from_path_scan_inv:
  assumes first: "timestamp_from_path e s p = Inr (t, s')"
    and inv: "scan_inv e d s"
    and sip: "scans_in_place e p"
    and na: "not_queried_as_archive e d p"
  shows "scan_inv e d s'"
proof -
  let ?k = "path_as_key e p"
  let ?sc = "scanning e ?k (table s, calls s)"
  have nf: "bindhash s \<noteq> Freed"
    using first by (auto simp: timestamp_from_path_freed)
  then have "(t, s') = afterscanning e ?k ?sc"
    using first by (simp add: timestamp_from_path_unfold)
  then have tab: "table s' = fst (probe e ?k ?sc)"
    by (simp add: afterscanning_def Let_def table_def)
  have ev: "evolves (table s) (table s')"
    using timestamp_from_path_evolves [OF first] .
  have dir: "is_scanned (table s') (key_directory e ?k)" if "\<not> started (table s) ?k"
    using timestamp_from_path_dirscans(2) [OF first that] by (simp add: parent_directory_key)
  have j1: "is_scanned (table s') (key_directory e k')" if st: "started (table s') k'" for k'
  proof (cases "started (table s) ?k")
    case True
    then have "?sc = (table s, calls s)"
      by (rule scanning_started)
    with st tab have "started (table s) k'"
      by simp
    with inv have "is_scanned (table s) (key_directory e k')"
      by (simp add: scan_inv_def)
    with ev show ?thesis
      by (simp add: evolves_def)
  next
    case False
    from st tab have "started (fst ?sc) k'"
      by simp
    from scanning_started_rev [OF this]
    consider "started (table s) k'" | "k' = ?k"
      | "k' \<in> entry_keys e (file_dirscan e (key_directory e ?k))"
      | "key_member e ?k" "k' \<in> entry_keys e (file_archscan e (key_archive e ?k))"
      by blast
    then show ?thesis
    proof cases
      case 1
      with inv have "is_scanned (table s) (key_directory e k')"
        by (simp add: scan_inv_def)
      with ev show ?thesis
        by (simp add: evolves_def)
    next
      case 2
      with dir [OF False] show ?thesis by simp
    next
      case 3
      with sip have "key_directory e k' = key_directory e ?k"
        by (simp add: scans_in_place_def)
      with dir [OF False] show ?thesis by simp
    next
      case 4
      with sip have "key_directory e k' = key_directory e ?k"
        by (simp add: scans_in_place_def)
      with dir [OF False] show ?thesis by simp
    qed
  qed
  have j2: "0 < count_list (calls s') (Dirscan d)" if sc: "is_scanned (table s') d"
  proof -
    note cnt = timestamp_from_path_dirscans(1) [OF first, of d]
    from sc tab have "is_scanned (fst ?sc) d"
      by simp
    from scanning_scanned_rev [OF this]
    consider "is_scanned (table s) d"
      | "\<not> is_scanned (table s) d" "\<not> started (table s) ?k" "d = key_directory e ?k"
      | "\<not> started (table s) ?k" "key_member e ?k" "d = key_archive e ?k"
      by blast
    then show ?thesis
    proof cases
      case 1
      with inv have "0 < count_list (calls s) (Dirscan d)"
        by (simp add: scan_inv_def)
      with cnt show ?thesis by simp
    next
      case 2
      with cnt show ?thesis
        by (simp add: parent_directory_key)
    next
      case 3
      with na show ?thesis
        by (simp add: not_queried_as_archive_def)
    qed
  qed
  from j1 j2 show ?thesis
    by (simp add: scan_inv_def)
qed

lemma resolve_all_evolves:
  "resolve_all e s ps = Inr (ts, s') \<Longrightarrow> evolves (table s) (table s')"
proof (induction ps arbitrary: s ts)
  case Nil
  then show ?case by simp
next
  case (Cons p ps)
  from Cons.prems obtain t s1 ts1
    where first: "timestamp_from_path e s p = Inr (t, s1)"
      and rest: "resolve_all e s1 ps = Inr (ts1, s')"
    by (auto split: sum.splits prod.splits)
  from timestamp_from_path_evolves [OF first] Cons.IH [OF rest] show ?case
    by (rule evolves_trans)
qed

lemma resolve_all_scan_inv:
  assumes "resolve_all e s ps = Inr (ts, s')" "scan_inv e d s"
    and "\<forall>q\<in>set ps. scans_in_place e q \<and> not_queried_as_archive e d q"
  shows "scan_inv e d s' \<and> (\<forall>q\<in>set ps. started (table s') (path_as_key e q))"
  using assms
proof (induction ps arbitrary: s ts)
  case Nil
  then show ?case by simp
next
  case (Cons p ps)
  from Cons.prems(1) obtain t s1 ts1
    where first: "timestamp_from_path e s p = Inr (t, s1)"
      and rest: "resolve_all e s1 ps = Inr (ts1, s')"
    by (auto split: sum.splits prod.splits)
  have inv1: "scan_inv e d s1"
    using timestamp_from_path_scan_inv [OF first Cons.prems(2)] Cons.prems(3) by simp
  have "\<forall>q\<in>set ps. scans_in_place e q \<and> not_queried_as_archive e d q"
    using Cons.prems(3) by simp
  from Cons.IH [OF rest inv1 this]
  have a: "scan_inv e d s'" and b: "\<forall>q\<in>set ps. started (table s') (path_as_key e q)"
    by simp_all
  have "started (table s1) (path_as_key e p)"
    using timestamp_from_path_settles [OF first] by simp
  with resolve_all_evolves [OF rest] have "started (table s') (path_as_key e p)"
    by (simp add: evolves_def)
  with a b show ?case by simp
qed

lemma dirscan_of_queried:
  assumes run: "resolve_all e initial_state ps = Inr (ts, s)"
    and p: "p \<in> set ps"
    and ok: "\<forall>q\<in>set ps. scans_in_place e q \<and> not_queried_as_archive e (parent_directory e p) q"
  shows "0 < count_list (calls s) (Dirscan (parent_directory e p))"
proof -
  have "scan_inv e (parent_directory e p) initial_state"
    by (simp add: scan_inv_def initial_state_def table_def started_def progress_of_def
        is_scanned_def)
  from resolve_all_scan_inv [OF run this ok] p
  have "scan_inv e (parent_directory e p) s" "started (table s) (path_as_key e p)"
    by simp_all
  then show ?thesis
    by (simp add: scan_inv_def parent_directory_key)
qed

section \<open>The directory of a queried path\<close>

text \<open>
  Claim C1 as it is written: in every sequence of queries, the directory of the queried
  paths is scanned exactly once. It is not. The query of the archive member \<open>d/l(m)\<close>
  scans the archive \<open>d/l\<close> and sets the scanned flag of the binding \<open>d/l\<close>; the query of
  \<open>d/l/f\<close>, whose directory is \<open>d/l\<close>, then finds the flag set, and \<^verbatim>\<open>file_dirscan\<close>
  is never called for \<open>d/l\<close>.
\<close>

theorem dirscan_skipped_after_archscan:
  "parent_directory example_env ''d/l/f'' = ''d/l''
   \<and> map_sum id fst (resolve_all example_env initial_state [''d/l(m)'', ''d/l/f''])
       = Inr [\<lparr>secs = 3000, nsecs = 0\<rparr>, timestamp_clear]
   \<and> calls (snd (projr (resolve_all example_env initial_state [''d/l(m)'', ''d/l/f''])))
       = [Dirscan ''d'', Archscan ''d/l'', File_time ''d/l(m)'']
   \<and> count_list (calls (snd (projr (resolve_all example_env initial_state
                                          [''d/l(m)'', ''d/l/f''])))) (Dirscan ''d/l'') = 0"
  by (simp add: model_defs example_defs)

text \<open>
  Claim C1, amended. In a run of queries on a new cache, in any order and number, every
  query returns and \<^verbatim>\<open>file_dirscan\<close> is called at most once for any directory. It is
  called exactly once for the parent directory d of a queried path when no queried archive
  member has d as its archive and the scans that the queries ask for report in place (the
  directory scan only entries of the directory scanned, the archive scan only members that
  lie in the directory of the queried member). Without these conditions it is called
  exactly once for d when every query of the run has the parent d, and for the parent of
  the first query of the run.
\<close>

theorem dirscan_once:
  "\<exists>ts s. resolve_all e initial_state ps = Inr (ts, s)
     \<and> length ts = length ps
     \<and> (\<forall>d. count_list (calls s) (Dirscan d) \<le> 1)
     \<and> (\<forall>p\<in>set ps.
           (\<forall>q\<in>set ps. scans_in_place e q \<and> not_queried_as_archive e (parent_directory e p) q)
           \<longrightarrow> count_list (calls s) (Dirscan (parent_directory e p)) = 1)
     \<and> (\<forall>d. ps \<noteq> [] \<and> (\<forall>p\<in>set ps. parent_directory e p = d)
            \<longrightarrow> count_list (calls s) (Dirscan d) = 1)
     \<and> (\<forall>p qs. ps = p # qs \<longrightarrow> count_list (calls s) (Dirscan (parent_directory e p)) = 1)"
proof -
  from dirscan_shared_parent [of e ps] obtain ts s
    where run: "resolve_all e initial_state ps = Inr (ts, s)" "length ts = length ps"
      and le: "\<forall>d. count_list (calls s) (Dirscan d) \<le> 1"
      and shared: "\<forall>d. ps \<noteq> [] \<and> (\<forall>p\<in>set ps. parent_directory e p = d)
            \<longrightarrow> count_list (calls s) (Dirscan d) = 1"
      and head: "\<forall>p qs. ps = p # qs \<longrightarrow> count_list (calls s) (Dirscan (parent_directory e p)) = 1"
    by blast
  have "count_list (calls s) (Dirscan (parent_directory e p)) = 1"
    if "p \<in> set ps"
      "\<forall>q\<in>set ps. scans_in_place e q \<and> not_queried_as_archive e (parent_directory e p) q"
    for p
    using dirscan_of_queried [OF run(1) that] le [rule_format, of "parent_directory e p"]
    by simp
  with run le shared head show ?thesis
    by blast
qed

theorem dirscan_once_witness:
  "parent_directory example_env ''d/a'' = ''d''
   \<and> parent_directory example_env ''d/b'' = ''d''
   \<and> (\<exists>ts s. resolve_all example_env initial_state [''d/a'', ''d/b'', ''d/a''] = Inr (ts, s)
          \<and> count_list (calls s) (Dirscan ''d'') = 1)
   \<and> scans_in_place example_env ''zz''
   \<and> scans_in_place example_env ''d/l(m)''
   \<and> scans_in_place example_env ''d/b''
   \<and> not_queried_as_archive example_env ''d'' ''zz''
   \<and> not_queried_as_archive example_env ''d'' ''d/l(m)''
   \<and> not_queried_as_archive example_env ''d'' ''d/b''
   \<and> (\<exists>ts s. resolve_all example_env initial_state [''zz'', ''d/l(m)'', ''d/b''] = Inr (ts, s)
          \<and> count_list (calls s) (Dirscan ''d'') = 1)"
proof -
  have pa: "parent_directory example_env ''d/a'' = ''d''"
    and pb: "parent_directory example_env ''d/b'' = ''d''"
    by (simp_all add: example_defs)
  then have "[''d/a'', ''d/b'', ''d/a''] \<noteq> []
      \<and> (\<forall>p\<in>set [''d/a'', ''d/b'', ''d/a'']. parent_directory example_env p = ''d'')"
    by simp
  with dirscan_once [of example_env "[''d/a'', ''d/b'', ''d/a'']"]
  have first: "\<exists>ts s. resolve_all example_env initial_state [''d/a'', ''d/b'', ''d/a''] = Inr (ts, s)
          \<and> count_list (calls s) (Dirscan ''d'') = 1"
    by blast
  have sip: "scans_in_place example_env ''zz''" "scans_in_place example_env ''d/l(m)''"
    "scans_in_place example_env ''d/b''"
    by (simp_all add: scans_in_place_def key_directory_def key_archive_def key_member_def
        example_defs)
  have na: "not_queried_as_archive example_env ''d'' ''zz''"
    "not_queried_as_archive example_env ''d'' ''d/l(m)''"
    "not_queried_as_archive example_env ''d'' ''d/b''"
    by (simp_all add: not_queried_as_archive_def key_archive_def key_member_def example_defs)
  have "''d/b'' \<in> set [''zz'', ''d/l(m)'', ''d/b'']"
    and "\<forall>q\<in>set [''zz'', ''d/l(m)'', ''d/b''].
           scans_in_place example_env q
           \<and> not_queried_as_archive example_env (parent_directory example_env ''d/b'') q"
    using sip na pb by simp_all
  with dirscan_once [of example_env "[''zz'', ''d/l(m)'', ''d/b'']"] pb
  have second: "\<exists>ts s. resolve_all example_env initial_state [''zz'', ''d/l(m)'', ''d/b''] = Inr (ts, s)
          \<and> count_list (calls s) (Dirscan ''d'') = 1"
    by (metis (no_types, lifting))
  from pa pb first sip na second show ?thesis
    by blast
qed

end
